theory Spec2Isabelle
  imports Main "HOL-Library.Multiset"
begin

unbundle bit_operations_syntax

section \<open>LRU-K replacer (src/buffer/lru\_k\_replacer.cpp)\<close>

text \<open>
  Modelled from the spec: \<open>frame_id_t\<close> is declared in a header that is not among the
  sources. The spec calls a frame identifier an integer, and the code casts the capacity
  with \<open>static_cast<frame_id_t>(replacer_size_)\<close> before comparing, so the type is a
  signed integer type of its own: frame identifiers are \<open>int\<close>, and the cast of a
  capacity \<open>n\<close> is \<open>int n\<close>.

  The members of the class are declared in the same header; their types are read off
  their uses in the source file, and \<open>curr_size_\<close> starts at \<open>0\<close>, as no frame of a
  fresh replacer is evictable.

  The counters (\<open>size_t\<close>) are natural numbers. \<open>++access_count_[f]\<close> is \<open>+ 1\<close>: no run
  performs \<open>2 ^ 64\<close> accesses. \<open>--curr_size_\<close> is written with its wrap-around at
  zero (\<open>dec_size\<close>), so that a decrement the code performs on an empty count shows.
\<close>

type_synonym frame_id_t = int

text \<open>
  The two \<open>unordered_map\<close>s \<open>access_count_\<close> and \<open>is_evictable_\<close> are only read
  with \<open>operator[]\<close>, which creates a value-initialised entry (\<open>0\<close>, \<open>false\<close>) for an
  absent key, and are otherwise only written and erased. Such a map is its total lookup
  function, and \<open>erase\<close> resets the key to the default.

  \<open>history_hash_\<close> and \<open>lru_k_hash_\<close> map a frame to the iterator of its node in
  \<open>history_list_\<close> and \<open>lru_k_list_\<close>. An iterator is stored for \<open>f\<close> only right
  after \<open>push_front(f)\<close> (it is \<open>begin()\<close>), and the key is erased together with its
  node. So the map is represented by its set of keys, and \<open>list.erase(hash[f])\<close>
  removes the front-most node holding \<open>f\<close> (\<open>remove1\<close>). When \<open>f\<close> is not a key,
  \<open>hash[f]\<close> is a value-initialised iterator and erasing through it is undefined
  behaviour: the model returns \<open>Undefined\<close>.
\<close>

record replacer =
  replacer_size :: nat
  k :: nat
  curr_size :: nat
  history_list :: "frame_id_t list"
  history_hash :: "frame_id_t set"
  lru_k_list :: "frame_id_t list"
  lru_k_hash :: "frame_id_t set"
  access_count :: "frame_id_t \<Rightarrow> nat"
  is_evictable :: "frame_id_t \<Rightarrow> bool"

text \<open>\<open>Exception\<close>: the call threw \<open>std::exception\<close>. Every \<open>throw\<close> of the source comes
  before the first write of its function, so the object is then as it was before the call.
  \<open>Undefined\<close>: the call ran into undefined behaviour.\<close>

datatype error = Exception | Undefined

definition LRUKReplacer :: "nat \<Rightarrow> nat \<Rightarrow> replacer" where
  "LRUKReplacer num_frames k' =
     \<lparr>replacer_size = num_frames, k = k', curr_size = 0,
      history_list = [], history_hash = {}, lru_k_list = [], lru_k_hash = {},
      access_count = (\<lambda>_. 0), is_evictable = (\<lambda>_. False)\<rparr>"

definition dec_size :: "nat \<Rightarrow> nat" where
  "dec_size n = (if n = 0 then 2 ^ 64 - 1 else n - 1)"

definition evict_history :: "frame_id_t \<Rightarrow> replacer \<Rightarrow> error + (frame_id_t option \<times> replacer)" where
  "evict_history frame s =
     (if frame \<in> history_hash s
      then Inr (Some frame,
             s\<lparr>history_list := remove1 frame (history_list s),
               history_hash := history_hash s - {frame},
               is_evictable := (is_evictable s)(frame := False),
               access_count := (access_count s)(frame := 0),
               curr_size := dec_size (curr_size s)\<rparr>)
      else Inl Undefined)"

definition evict_lru_k :: "frame_id_t \<Rightarrow> replacer \<Rightarrow> error + (frame_id_t option \<times> replacer)" where
  "evict_lru_k frame s =
     (if frame \<in> lru_k_hash s
      then Inr (Some frame,
             s\<lparr>lru_k_list := remove1 frame (lru_k_list s),
               lru_k_hash := lru_k_hash s - {frame},
               is_evictable := (is_evictable s)(frame := False),
               access_count := (access_count s)(frame := 0),
               curr_size := dec_size (curr_size s)\<rparr>)
      else Inl Undefined)"

text \<open>\<open>Evict\<close>: the two \<open>for\<close> loops walk \<open>rbegin() .. rend()\<close>, that is the list from
  its back, and stop at the first evictable frame. The result \<open>None\<close> is \<open>return false\<close>.\<close>

definition Evict :: "replacer \<Rightarrow> error + (frame_id_t option \<times> replacer)" where
  "Evict s =
     (if curr_size s = 0 then Inr (None, s)
      else case find (is_evictable s) (rev (history_list s)) of
             Some frame \<Rightarrow> evict_history frame s
           | None \<Rightarrow>
               (case find (is_evictable s) (rev (lru_k_list s)) of
                  Some frame \<Rightarrow> evict_lru_k frame s
                | None \<Rightarrow> Inr (None, s)))"

definition RecordAccess :: "frame_id_t \<Rightarrow> replacer \<Rightarrow> error + replacer" where
  "RecordAccess frame_id s =
     (if frame_id > int (replacer_size s) then Inl Exception
      else
        let cnt = access_count s frame_id + 1;
            s1 = s\<lparr>access_count := (access_count s)(frame_id := cnt)\<rparr>
        in if cnt < k s then
             (if frame_id \<notin> history_hash s
              then Inr (s1\<lparr>history_list := frame_id # history_list s,
                           history_hash := insert frame_id (history_hash s)\<rparr>)
              else Inr s1)
           else if cnt = k s then
             (if frame_id \<in> history_hash s
              then Inr (s1\<lparr>history_list := remove1 frame_id (history_list s),
                           history_hash := history_hash s - {frame_id},
                           lru_k_list := frame_id # lru_k_list s,
                           lru_k_hash := insert frame_id (lru_k_hash s)\<rparr>)
              else Inl Undefined)
           else
             (if frame_id \<in> lru_k_hash s
              then Inr (s1\<lparr>lru_k_list := frame_id # remove1 frame_id (lru_k_list s),
                           lru_k_hash := insert frame_id (lru_k_hash s - {frame_id})\<rparr>)
              else Inr (s1\<lparr>lru_k_list := frame_id # lru_k_list s,
                           lru_k_hash := insert frame_id (lru_k_hash s)\<rparr>)))"

definition SetEvictable :: "frame_id_t \<Rightarrow> bool \<Rightarrow> replacer \<Rightarrow> error + replacer" where
  "SetEvictable frame_id set_evictable s =
     (if frame_id > int (replacer_size s) then Inl Exception
      else if access_count s frame_id = 0 then Inr s
      else
        let c1 = (if is_evictable s frame_id \<and> \<not> set_evictable
                  then dec_size (curr_size s) else curr_size s);
            c2 = (if \<not> is_evictable s frame_id \<and> set_evictable
                  then c1 + 1 else c1)
        in Inr (s\<lparr>curr_size := c2,
                 is_evictable := (is_evictable s)(frame_id := set_evictable)\<rparr>))"

definition Remove :: "frame_id_t \<Rightarrow> replacer \<Rightarrow> error + replacer" where
  "Remove frame_id s =
     (if access_count s frame_id = 0 then Inr s
      else if \<not> is_evictable s frame_id \<or> frame_id > int (replacer_size s) then Inl Exception
      else if frame_id \<in> history_hash s then
        Inr (s\<lparr>history_list := remove1 frame_id (history_list s),
               history_hash := history_hash s - {frame_id},
               curr_size := dec_size (curr_size s),
               is_evictable := (is_evictable s)(frame_id := False),
               access_count := (access_count s)(frame_id := 0)\<rparr>)
      else if frame_id \<in> lru_k_hash s then
        Inr (s\<lparr>lru_k_list := remove1 frame_id (lru_k_list s),
               lru_k_hash := lru_k_hash s - {frame_id},
               curr_size := dec_size (curr_size s),
               is_evictable := (is_evictable s)(frame_id := False),
               access_count := (access_count s)(frame_id := 0)\<rparr>)
      else Inl Undefined)"

definition Size :: "replacer \<Rightarrow> nat" where
  "Size s = curr_size s"

subsection \<open>Sequences of replacer operations\<close>

datatype replacer_op =
    OpRecordAccess frame_id_t
  | OpSetEvictable frame_id_t bool
  | OpEvict
  | OpRemove frame_id_t

text \<open>One call on the replacer. A call that throws leaves the object as it was (the caller
  may go on using it); a call that runs into undefined behaviour gives no state.\<close>

definition continue :: "replacer \<Rightarrow> error + replacer \<Rightarrow> replacer option" where
  "continue s r = (case r of Inr s' \<Rightarrow> Some s' | Inl Exception \<Rightarrow> Some s | Inl Undefined \<Rightarrow> None)"

fun replacer_step :: "replacer_op \<Rightarrow> replacer \<Rightarrow> replacer option" where
  "replacer_step (OpRecordAccess f) s = continue s (RecordAccess f s)"
| "replacer_step (OpSetEvictable f b) s = continue s (SetEvictable f b s)"
| "replacer_step OpEvict s = continue s (map_sum id snd (Evict s))"
| "replacer_step (OpRemove f) s = continue s (Remove f s)"

fun replacer_run :: "replacer_op list \<Rightarrow> replacer \<Rightarrow> replacer option" where
  "replacer_run [] s = Some s"
| "replacer_run (op # ops) s =
     (case replacer_step op s of None \<Rightarrow> None | Some s' \<Rightarrow> replacer_run ops s')"

subsection \<open>Invariants of the replacer\<close>

definition queues_inv :: "replacer \<Rightarrow> bool" where
  "queues_inv s \<longleftrightarrow>
     distinct (history_list s) \<and> distinct (lru_k_list s) \<and>
     history_hash s = set (history_list s) \<and> lru_k_hash s = set (lru_k_list s) \<and>
     (\<forall>f. f \<in> set (history_list s) \<longleftrightarrow> 1 \<le> access_count s f \<and> access_count s f < k s) \<and>
     (\<forall>f. f \<in> set (lru_k_list s) \<longleftrightarrow> 1 \<le> access_count s f \<and> k s \<le> access_count s f) \<and>
     (\<forall>f. is_evictable s f \<longrightarrow> 0 < access_count s f)"

definition size_inv :: "replacer \<Rightarrow> bool" where
  "size_inv s \<longleftrightarrow> curr_size s = card {f. is_evictable s f}"

definition replacer_inv :: "replacer \<Rightarrow> bool" where
  "replacer_inv s \<longleftrightarrow> queues_inv s \<and> size_inv s"

subsection \<open>A concrete run\<close>

definition example_ops :: "replacer_op list" where
  "example_ops = [OpRecordAccess 1, OpRecordAccess 2, OpRecordAccess 3, OpRecordAccess 3,
     OpSetEvictable 2 True, OpSetEvictable 3 True]"

definition example_state :: replacer where
  "example_state =
     \<lparr>replacer_size = 7, k = 2, curr_size = 2,
      history_list = [2, 1], history_hash = {2, 1}, lru_k_list = [3], lru_k_hash = {3},
      access_count = (\<lambda>_. 0)(1 := 1, 2 := 1, 3 := 2),
      is_evictable = (\<lambda>_. False)(2 := True, 3 := True)\<rparr>"

subsection \<open>Runs with a clock\<close>

text \<open>
  To speak of the time of an access, a run carries a clock next to the replacer: the time
  of an operation is its position in the sequence. \<open>first_access f\<close> is the time of the
  access that made \<open>f\<close> known (its count went from \<open>0\<close> to \<open>1\<close>), \<open>last_access f\<close>
  the time of its most recent access. Only a \<open>RecordAccess\<close> that returns normally
  stamps a frame. The replacer itself runs as in \<open>replacer_step\<close>.
\<close>

record timed =
  state :: replacer
  now :: nat
  first_access :: "frame_id_t \<Rightarrow> nat"
  last_access :: "frame_id_t \<Rightarrow> nat"

definition timed_init :: "nat \<Rightarrow> nat \<Rightarrow> timed" where
  "timed_init num_frames k' =
     \<lparr>state = LRUKReplacer num_frames k', now = 0,
      first_access = (\<lambda>_. 0), last_access = (\<lambda>_. 0)\<rparr>"

definition stamp :: "replacer_op \<Rightarrow> timed \<Rightarrow> replacer \<Rightarrow> timed" where
  "stamp op \<tau> s' =
     (case op of
        OpRecordAccess f \<Rightarrow>
          if isl (RecordAccess f (state \<tau>)) then \<tau>\<lparr>state := s', now := now \<tau> + 1\<rparr>
          else \<tau>\<lparr>state := s', now := now \<tau> + 1,
                 first_access := (if access_count (state \<tau>) f = 0
                                  then (first_access \<tau>)(f := now \<tau>) else first_access \<tau>),
                 last_access := (last_access \<tau>)(f := now \<tau>)\<rparr>
      | _ \<Rightarrow> \<tau>\<lparr>state := s', now := now \<tau> + 1\<rparr>)"

definition timed_step :: "replacer_op \<Rightarrow> timed \<Rightarrow> timed option" where
  "timed_step op \<tau> = map_option (stamp op \<tau>) (replacer_step op (state \<tau>))"

fun timed_run :: "replacer_op list \<Rightarrow> timed \<Rightarrow> timed option" where
  "timed_run [] \<tau> = Some \<tau>"
| "timed_run (op # ops) \<tau> =
     (case timed_step op \<tau> of None \<Rightarrow> None | Some \<tau>' \<Rightarrow> timed_run ops \<tau>')"

definition timed_inv :: "timed \<Rightarrow> bool" where
  "timed_inv \<tau> \<longleftrightarrow>
     replacer_inv (state \<tau>) \<and>
     sorted_wrt (\<lambda>a b. first_access \<tau> b < first_access \<tau> a) (history_list (state \<tau>)) \<and>
     sorted_wrt (\<lambda>a b. last_access \<tau> b < last_access \<tau> a) (lru_k_list (state \<tau>)) \<and>
     (\<forall>f\<in>set (history_list (state \<tau>)). first_access \<tau> f < now \<tau>) \<and>
     (\<forall>f\<in>set (lru_k_list (state \<tau>)). last_access \<tau> f < now \<tau>)"

definition timed_example_ops :: "replacer_op list" where
  "timed_example_ops =
     [OpRecordAccess 1, OpRecordAccess 2, OpRecordAccess 3, OpRecordAccess 4, OpRecordAccess 4,
      OpRecordAccess 2, OpSetEvictable 1 True, OpSetEvictable 2 True, OpSetEvictable 4 True]"

definition timed_example :: timed where
  "timed_example =
     \<lparr>state = \<lparr>replacer_size = 7, k = 3, curr_size = 3,
                history_list = [4, 3, 2, 1], history_hash = {4, 3, 2, 1},
                lru_k_list = [], lru_k_hash = {},
                access_count = (\<lambda>_. 0)(1 := 1, 2 := 2, 3 := 1, 4 := 2),
                is_evictable = (\<lambda>_. False)(1 := True, 2 := True, 4 := True)\<rparr>,
      now = 9,
      first_access = (\<lambda>_. 0)(1 := 0, 2 := 1, 3 := 2, 4 := 3),
      last_access = (\<lambda>_. 0)(1 := 0, 2 := 5, 3 := 2, 4 := 4)\<rparr>"

section \<open>Extendible hash table (src/container/hash/extendible\_hash\_table.cpp)\<close>

text \<open>
  The directory \<open>dir_\<close> is a vector of \<open>shared_ptr<Bucket>\<close>: several slots may point
  to one bucket, the code compares the pointers (\<open>dir_[i] == origin_bucket\<close>) and writes
  to a bucket through any of them. So the buckets live in an explicit store \<open>heap\<close>, a
  list indexed by addresses; a directory slot holds an address; \<open>make_shared\<close> appends
  a bucket to the store and its address is the old length of the store. A bucket that no
  slot points to any more stays in the store, unreachable.

  The members (\<open>global_depth_\<close>, \<open>bucket_size_\<close>, \<open>num_buckets_\<close>, \<open>dir_\<close>, and
  \<open>size_\<close>, \<open>depth_\<close>, \<open>list_\<close> of a bucket) are declared in the header, which is not
  among the sources; they are read off the constructors and their uses in the source file.

  \<open>std::hash<K>()\<close> is a parameter \<open>h\<close> of every operation, with values in \<open>nat\<close>
  (the value of the \<open>size_t\<close>). \<open>global_depth_\<close>, \<open>num_buckets_\<close>, \<open>depth_\<close> and
  the masks are \<open>int\<close> in the source and only ever grow from \<open>0\<close>; they are natural
  numbers here, and \<open>1 << n\<close> is \<open>push_bit n 1\<close> without a bound on \<open>n\<close>.
\<close>

record ('k, 'v) bucket =
  size_b :: nat
  depth_b :: nat
  list_b :: "('k \<times> 'v) list"

record ('k, 'v) table =
  global_depth :: nat
  bucket_size :: nat
  num_buckets :: nat
  dir :: "nat list"
  heap :: "('k, 'v) bucket list"

definition Bucket :: "nat \<Rightarrow> nat \<Rightarrow> ('k, 'v) bucket" where
  "Bucket array_size depth = \<lparr>size_b = array_size, depth_b = depth, list_b = []\<rparr>"

definition ExtendibleHashTable :: "nat \<Rightarrow> ('k, 'v) table" where
  "ExtendibleHashTable bucket_size' =
     \<lparr>global_depth = 0, bucket_size = bucket_size', num_buckets = 1,
      dir = [0], heap = [Bucket bucket_size' 0]\<rparr>"

subsection \<open>Buckets\<close>

text \<open>
  Modelled from the spec: \<open>Bucket::IsFull\<close>, \<open>GetDepth\<close> and \<open>GetItems\<close> are defined
  in the header, which is not among the sources. The spec describes a bucket as a bounded
  collection with a fixed capacity that never holds more than \<open>bucket_size\<close> entries:
  a bucket is full when it holds as many entries as its capacity \<open>size_\<close>. \<open>GetDepth\<close>
  and \<open>GetItems\<close> are the fields \<open>depth_b\<close> and \<open>list_b\<close>.
\<close>

definition IsFull :: "('k, 'v) bucket \<Rightarrow> bool" where
  "IsFull b \<longleftrightarrow> length (list_b b) = size_b b"

text \<open>\<open>Bucket::Find\<close>: \<open>any_of\<close> stops at the first entry with the key.\<close>

definition Bucket_Find :: "'k \<Rightarrow> ('k, 'v) bucket \<Rightarrow> 'v option" where
  "Bucket_Find key b = map_option snd (find (\<lambda>it. fst it = key) (list_b b))"

text \<open>\<open>Bucket::Remove\<close>: at the first entry with the key, \<open>list_.remove(it)\<close> removes
  every entry equal to it (key and value), and \<open>any_of\<close> stops.\<close>

definition Bucket_Remove :: "'k \<Rightarrow> ('k, 'v) bucket \<Rightarrow> bool \<times> ('k, 'v) bucket" where
  "Bucket_Remove key b =
     (case find (\<lambda>it. fst it = key) (list_b b) of
        None \<Rightarrow> (False, b)
      | Some it \<Rightarrow> (True, b\<lparr>list_b := removeAll it (list_b b)\<rparr>))"

text \<open>The loop \<open>if (it.first == key) { it.second = value; return ...; }\<close> over a list.\<close>

fun assign_first :: "'k \<Rightarrow> 'v \<Rightarrow> ('k \<times> 'v) list \<Rightarrow> ('k \<times> 'v) list" where
  "assign_first key value [] = []"
| "assign_first key value (it # its) =
     (if fst it = key then (fst it, value) # its else it # assign_first key value its)"

definition Bucket_Insert :: "'k \<Rightarrow> 'v \<Rightarrow> ('k, 'v) bucket \<Rightarrow> bool \<times> ('k, 'v) bucket" where
  "Bucket_Insert key value b =
     (if IsFull b then (False, b)
      else if find (\<lambda>it. fst it = key) (list_b b) \<noteq> None
      then (False, b\<lparr>list_b := assign_first key value (list_b b)\<rparr>)
      else (True, b\<lparr>list_b := list_b b @ [(key, value)]\<rparr>))"

subsection \<open>The table\<close>

definition IndexOf :: "('k \<Rightarrow> nat) \<Rightarrow> ('k, 'v) table \<Rightarrow> 'k \<Rightarrow> nat" where
  "IndexOf h t key = (let bitmask = push_bit (global_depth t) 1 - 1 in h key AND bitmask)"

definition Table_Find :: "('k \<Rightarrow> nat) \<Rightarrow> 'k \<Rightarrow> ('k, 'v) table \<Rightarrow> 'v option" where
  "Table_Find h key t = (let index = IndexOf h t key in Bucket_Find key (heap t ! (dir t ! index)))"

definition Table_Remove :: "('k \<Rightarrow> nat) \<Rightarrow> 'k \<Rightarrow> ('k, 'v) table \<Rightarrow> bool \<times> ('k, 'v) table" where
  "Table_Remove h key t =
     (let index = IndexOf h t key;
          a = dir t ! index;
          (r, b) = Bucket_Remove key (heap t ! a)
      in (r, t\<lparr>heap := (heap t)[a := b]\<rparr>))"

text \<open>The directory doubles: \<open>dir_.resize(cur_size << 1)\<close> and the copy of slot \<open>i\<close> to
  slot \<open>cur_size + i\<close>.\<close>

definition grow :: "('k, 'v) table \<Rightarrow> ('k, 'v) table" where
  "grow t = t\<lparr>global_depth := global_depth t + 1, dir := dir t @ dir t\<rparr>"

text \<open>The entries of the origin bucket go to \<open>split_bucket1\<close> when the masked hash is not
  zero, else to \<open>split_bucket0\<close>, each through \<open>Bucket::Insert\<close>.\<close>

definition redistribute ::
  "('k \<Rightarrow> nat) \<Rightarrow> nat \<Rightarrow> ('k \<times> 'v) list \<Rightarrow> ('k, 'v) bucket \<times> ('k, 'v) bucket
     \<Rightarrow> ('k, 'v) bucket \<times> ('k, 'v) bucket" where
  "redistribute h bitmask its bs =
     fold (\<lambda>it (b0, b1).
        if h (fst it) AND bitmask \<noteq> 0 then (b0, snd (Bucket_Insert (fst it) (snd it) b1))
        else (snd (Bucket_Insert (fst it) (snd it) b0), b1)) its bs"

text \<open>The loop over the directory: a slot that holds the origin bucket gets one of the two
  new buckets, by the masked slot index. The new addresses differ from the origin's, so
  the loop is a map over the slots.\<close>

definition rewire :: "nat \<Rightarrow> nat \<Rightarrow> nat \<Rightarrow> nat \<Rightarrow> nat list \<Rightarrow> nat list" where
  "rewire origin bitmask a0 a1 d =
     map (\<lambda>(i, a). if a = origin then (if i AND bitmask \<noteq> 0 then a1 else a0) else a)
       (enumerate 0 d)"

text \<open>The part of the loop body after the directory has grown: the two new buckets, the
  redistribution, \<open>++num_buckets_\<close> and the rewiring. \<open>origin\<close> is the address held by
  \<open>origin_bucket\<close>.\<close>

definition split_bucket :: "('k \<Rightarrow> nat) \<Rightarrow> nat \<Rightarrow> ('k, 'v) table \<Rightarrow> ('k, 'v) table" where
  "split_bucket h origin t =
     (let ob = heap t ! origin;
          a0 = length (heap t);
          a1 = a0 + 1;
          bitmask = push_bit (depth_b ob) 1;
          (b0, b1) = redistribute h bitmask (list_b ob)
                       (Bucket (bucket_size t) (depth_b ob + 1), Bucket (bucket_size t) (depth_b ob + 1))
      in t\<lparr>heap := heap t @ [b0, b1],
           num_buckets := num_buckets t + 1,
           dir := rewire origin bitmask a0 a1 (dir t)\<rparr>)"

text \<open>One iteration of the \<open>while\<close> loop of \<open>Insert\<close>.\<close>

definition split_step :: "('k \<Rightarrow> nat) \<Rightarrow> 'k \<Rightarrow> ('k, 'v) table \<Rightarrow> ('k, 'v) table" where
  "split_step h key t =
     (let index = IndexOf h t key;
          origin = dir t ! index
      in split_bucket h origin
           (if depth_b (heap t ! origin) = global_depth t then grow t else t))"

text \<open>The \<open>while\<close> loop of \<open>Insert\<close>. It may run forever: the result \<open>None\<close> is a loop
  that does not end.\<close>

partial_function (option) split_loop ::
  "('k \<Rightarrow> nat) \<Rightarrow> 'k \<Rightarrow> ('k, 'v) table \<Rightarrow> ('k, 'v) table option" where
  "split_loop h key t =
     (if IsFull (heap t ! (dir t ! IndexOf h t key))
      then split_loop h key (split_step h key t)
      else Some t)"

declare split_loop.simps [code]

text \<open>After the loop: overwrite the value when the key is in the target bucket, else
  \<open>Bucket::Insert\<close> (whose result is dropped).\<close>

definition store_entry :: "('k \<Rightarrow> nat) \<Rightarrow> 'k \<Rightarrow> 'v \<Rightarrow> ('k, 'v) table \<Rightarrow> ('k, 'v) table" where
  "store_entry h key value t =
     (let a = dir t ! IndexOf h t key;
          b = heap t ! a
      in if find (\<lambda>it. key = fst it) (list_b b) \<noteq> None
         then t\<lparr>heap := (heap t)[a := b\<lparr>list_b := assign_first key value (list_b b)\<rparr>]\<rparr>
         else t\<lparr>heap := (heap t)[a := snd (Bucket_Insert key value b)]\<rparr>)"

definition Table_Insert :: "('k \<Rightarrow> nat) \<Rightarrow> 'k \<Rightarrow> 'v \<Rightarrow> ('k, 'v) table \<Rightarrow> ('k, 'v) table option" where
  "Table_Insert h key value t =
     (case split_loop h key t of
        None \<Rightarrow> None
      | Some t' \<Rightarrow> Some (store_entry h key value t'))"

subsection \<open>Sequences of table operations\<close>

datatype ('k, 'v) table_op = OpInsert 'k 'v | OpRemoveKey 'k

fun table_step :: "('k \<Rightarrow> nat) \<Rightarrow> ('k, 'v) table_op \<Rightarrow> ('k, 'v) table \<Rightarrow> ('k, 'v) table option" where
  "table_step h (OpInsert key value) t = Table_Insert h key value t"
| "table_step h (OpRemoveKey key) t = Some (snd (Table_Remove h key t))"

fun table_run :: "('k \<Rightarrow> nat) \<Rightarrow> ('k, 'v) table_op list \<Rightarrow> ('k, 'v) table \<Rightarrow> ('k, 'v) table option" where
  "table_run h [] t = Some t"
| "table_run h (op # ops) t =
     (case table_step h op t of None \<Rightarrow> None | Some t' \<Rightarrow> table_run h ops t')"

text \<open>What the spec says \<open>find\<close> returns after a sequence of operations: the value of the
  most recent insert of the key that no remove of the key follows, as a map updated by
  each operation in turn.\<close>

fun spec_apply :: "('k, 'v) table_op \<Rightarrow> ('k \<rightharpoonup> 'v) \<Rightarrow> ('k \<rightharpoonup> 'v)" where
  "spec_apply (OpInsert key value) m = m(key \<mapsto> value)"
| "spec_apply (OpRemoveKey key) m = m(key := None)"

definition spec_contents :: "('k, 'v) table_op list \<Rightarrow> ('k \<rightharpoonup> 'v)" where
  "spec_contents ops = fold spec_apply ops Map.empty"

text \<open>No operation of the sequence inserts a key that the table holds at that moment, when
  \<open>m\<close> is what the table holds at the start.\<close>

fun no_reinsert :: "('k, 'v) table_op list \<Rightarrow> ('k \<rightharpoonup> 'v) \<Rightarrow> bool" where
  "no_reinsert [] m = True"
| "no_reinsert (OpInsert key value # ops) m = (m key = None \<and> no_reinsert ops (m(key \<mapsto> value)))"
| "no_reinsert (OpRemoveKey key # ops) m = no_reinsert ops (m(key := None))"

subsection \<open>Invariants of the table\<close>

definition bucket_at :: "('k, 'v) table \<Rightarrow> nat \<Rightarrow> ('k, 'v) bucket" where
  "bucket_at t i = heap t ! (dir t ! i)"

text \<open>Slot \<open>i\<close> of the directory is in order: it points into the store; its bucket has a
  local depth of at most the global depth, the table's capacity, at most that many entries
  and no key twice; every key of the bucket agrees with \<open>i\<close> on the low \<open>depth\<close> bits of
  its hash; and the slots that point to the same bucket are those that agree with \<open>i\<close> on
  these bits.\<close>

definition slot_ok :: "('k \<Rightarrow> nat) \<Rightarrow> ('k, 'v) table \<Rightarrow> nat \<Rightarrow> bool" where
  "slot_ok h t i \<longleftrightarrow>
     dir t ! i < length (heap t) \<and>
     depth_b (bucket_at t i) \<le> global_depth t \<and>
     size_b (bucket_at t i) = bucket_size t \<and>
     length (list_b (bucket_at t i)) \<le> bucket_size t \<and>
     distinct (map fst (list_b (bucket_at t i))) \<and>
     (\<forall>it \<in> set (list_b (bucket_at t i)).
        take_bit (depth_b (bucket_at t i)) (h (fst it)) = take_bit (depth_b (bucket_at t i)) i) \<and>
     (\<forall>j < length (dir t).
        dir t ! j = dir t ! i \<longleftrightarrow>
        take_bit (depth_b (bucket_at t i)) j = take_bit (depth_b (bucket_at t i)) i)"

definition table_inv :: "('k \<Rightarrow> nat) \<Rightarrow> ('k, 'v) table \<Rightarrow> bool" where
  "table_inv h t \<longleftrightarrow>
     length (dir t) = 2 ^ global_depth t \<and> (\<forall>i < length (dir t). slot_ok h t i)"

text \<open>The entries reachable through the directory, each bucket counted once.\<close>

definition entries :: "('k, 'v) table \<Rightarrow> ('k \<times> 'v) multiset" where
  "entries t = mset (concat (map (\<lambda>a. list_b (heap t ! a)) (remdups (dir t))))"

text \<open>The two buckets a split makes of a bucket \<open>ob\<close>, in closed form.\<close>

definition split0 :: "('k \<Rightarrow> nat) \<Rightarrow> nat \<Rightarrow> ('k, 'v) bucket \<Rightarrow> ('k, 'v) bucket" where
  "split0 h n ob = \<lparr>size_b = n, depth_b = depth_b ob + 1,
     list_b = filter (\<lambda>it. \<not> bit (h (fst it)) (depth_b ob)) (list_b ob)\<rparr>"

definition split1 :: "('k \<Rightarrow> nat) \<Rightarrow> nat \<Rightarrow> ('k, 'v) bucket \<Rightarrow> ('k, 'v) bucket" where
  "split1 h n ob = \<lparr>size_b = n, depth_b = depth_b ob + 1,
     list_b = filter (\<lambda>it. bit (h (fst it)) (depth_b ob)) (list_b ob)\<rparr>"

text \<open>
  The entries of a bucket after the final step of \<open>Insert\<close> (\<open>stored\<close>) and after
  \<open>Bucket::Remove\<close> (\<open>removed\<close>), as functions of the list.
\<close>

definition stored :: "'k \<Rightarrow> 'v \<Rightarrow> ('k \<times> 'v) list \<Rightarrow> ('k \<times> 'v) list" where
  "stored key v xs = (if key \<in> fst ` set xs then assign_first key v xs else xs @ [(key, v)])"

definition removed :: "'k \<Rightarrow> ('k \<times> 'v) list \<Rightarrow> ('k \<times> 'v) list" where
  "removed key xs = (case find (\<lambda>it. fst it = key) xs of None \<Rightarrow> xs | Some it \<Rightarrow> removeAll it xs)"

subsection \<open>Concrete tables\<close>

text \<open>Keys and values are natural numbers, and the hash is the identity, as
  \<open>std::hash<int>\<close> is on these keys.\<close>

definition idh :: "nat \<Rightarrow> nat" where
  "idh x = x"

definition example_table_ops :: "(nat, nat) table_op list" where
  "example_table_ops =
     [OpInsert 1 10, OpInsert 2 20, OpInsert 3 30, OpRemoveKey 2, OpInsert 1 40]"

definition example_table :: "(nat, nat) table" where
  "example_table =
     \<lparr>global_depth = 2, bucket_size = 2, num_buckets = 3, dir = [1, 3, 1, 4],
      heap = [\<lparr>size_b = 2, depth_b = 0, list_b = [(1, 10), (2, 20)]\<rparr>,
              \<lparr>size_b = 2, depth_b = 1, list_b = []\<rparr>,
              \<lparr>size_b = 2, depth_b = 1, list_b = [(1, 10), (3, 30)]\<rparr>,
              \<lparr>size_b = 2, depth_b = 2, list_b = [(1, 40)]\<rparr>,
              \<lparr>size_b = 2, depth_b = 2, list_b = [(3, 30)]\<rparr>]\<rparr>"

definition full_table :: "(nat, nat) table" where
  "full_table =
     \<lparr>global_depth = 0, bucket_size = 2, num_buckets = 1, dir = [0],
      heap = [\<lparr>size_b = 2, depth_b = 0, list_b = [(1, 10), (2, 20)]\<rparr>]\<rparr>"

definition full_table_after :: "(nat, nat) table" where
  "full_table_after =
     \<lparr>global_depth = 1, bucket_size = 2, num_buckets = 2, dir = [1, 2],
      heap = [\<lparr>size_b = 2, depth_b = 0, list_b = [(1, 10), (2, 20)]\<rparr>,
              \<lparr>size_b = 2, depth_b = 1, list_b = [(2, 20)]\<rparr>,
              \<lparr>size_b = 2, depth_b = 1, list_b = [(1, 30)]\<rparr>]\<rparr>"

text \<open>Inserting a key twice.\<close>

definition reinsert_ops :: "(nat, nat) table_op list" where
  "reinsert_ops = [OpInsert 1 10, OpInsert 1 20]"

definition single_table :: "(nat, nat) table" where
  "single_table =
     \<lparr>global_depth = 0, bucket_size = 1, num_buckets = 1, dir = [0],
      heap = [\<lparr>size_b = 1, depth_b = 0, list_b = [(1, 10)]\<rparr>]\<rparr>"

section \<open>Properties of the LRU-K replacer\<close>

subsection \<open>The invariant holds initially and is kept by every operation\<close>

lemma inv_init: "replacer_inv (LRUKReplacer n k')"
  by (simp add: replacer_inv_def queues_inv_def size_inv_def LRUKReplacer_def)

lemma known_in_queue:
  assumes "queues_inv s" "0 < access_count s f"
  shows "f \<in> set (history_list s) \<or> f \<in> set (lru_k_list s)"
  using assms by (cases "access_count s f < k s") (auto simp: queues_inv_def)

lemma evictable_finite:
  assumes "queues_inv s"
  shows "finite {f. is_evictable s f}"
proof (rule finite_subset)
  show "{f. is_evictable s f} \<subseteq> set (history_list s) \<union> set (lru_k_list s)"
    using known_in_queue[OF assms] assms by (auto simp: queues_inv_def)
qed simp

lemma size_inv_clear:
  assumes "size_inv s" "queues_inv s" "is_evictable s f0"
    "is_evictable s' = (is_evictable s)(f0 := False)" "curr_size s' = dec_size (curr_size s)"
  shows "size_inv s'"
proof -
  have fin: "finite {f. is_evictable s f}" using assms(2) by (rule evictable_finite)
  have "{f. is_evictable s' f} = {f. is_evictable s f} - {f0}"
    by (auto simp: assms(4))
  moreover have "f0 \<in> {f. is_evictable s f}" using assms(3) by simp
  ultimately have "card {f. is_evictable s' f} = card {f. is_evictable s f} - 1"
    and "0 < card {f. is_evictable s f}"
    using fin by (auto simp: card_gt_0_iff)
  then show ?thesis using assms(1,5) by (simp add: size_inv_def dec_size_def)
qed

lemma size_inv_set:
  assumes "size_inv s" "queues_inv s" "\<not> is_evictable s f0"
    "is_evictable s' = (is_evictable s)(f0 := True)" "curr_size s' = curr_size s + 1"
  shows "size_inv s'"
proof -
  have fin: "finite {f. is_evictable s f}" using assms(2) by (rule evictable_finite)
  have "{f. is_evictable s' f} = insert f0 {f. is_evictable s f}"
    by (auto simp: assms(4))
  then have "card {f. is_evictable s' f} = card {f. is_evictable s f} + 1"
    using fin assms(3) by simp
  then show ?thesis using assms(1,5) by (simp add: size_inv_def)
qed

lemma size_inv_same:
  assumes "size_inv s" "is_evictable s' = is_evictable s" "curr_size s' = curr_size s"
  shows "size_inv s'"
  using assms by (simp add: size_inv_def)

lemma RecordAccess_queues:
  assumes "queues_inv s" "RecordAccess f s = Inr s'"
  shows "queues_inv s'"
  using assms unfolding RecordAccess_def queues_inv_def Let_def
  by (auto split: if_splits)

lemma RecordAccess_frame:
  assumes "RecordAccess f s = Inr s'"
  shows "is_evictable s' = is_evictable s \<and> curr_size s' = curr_size s \<and> k s' = k s
    \<and> replacer_size s' = replacer_size s"
  using assms by (auto simp: RecordAccess_def Let_def split: if_splits)

lemma RecordAccess_inv:
  assumes "replacer_inv s" "RecordAccess f s = Inr s'"
  shows "replacer_inv s'"
  using assms RecordAccess_queues[of s f s'] RecordAccess_frame[of f s s'] size_inv_same[of s s']
  by (simp add: replacer_inv_def)

lemma SetEvictable_fields:
  assumes "SetEvictable f b s = Inr s'" "0 < access_count s f"
  shows "is_evictable s' = (is_evictable s)(f := b)"
    and "curr_size s' = (if is_evictable s f = b then curr_size s
                          else if b then curr_size s + 1 else dec_size (curr_size s))"
    and "history_list s' = history_list s" and "lru_k_list s' = lru_k_list s"
    and "history_hash s' = history_hash s" and "lru_k_hash s' = lru_k_hash s"
    and "access_count s' = access_count s" and "k s' = k s"
  using assms by (auto simp: SetEvictable_def Let_def split: if_splits)

lemma SetEvictable_unknown:
  assumes "SetEvictable f b s = Inr s'" "access_count s f = 0"
  shows "s' = s"
  using assms by (auto simp: SetEvictable_def Let_def split: if_splits)

lemma SetEvictable_inv:
  assumes "replacer_inv s" "SetEvictable f b s = Inr s'"
  shows "replacer_inv s'"
proof (cases "access_count s f = 0")
  case True
  then show ?thesis using SetEvictable_unknown[OF assms(2)] assms(1) by simp
next
  case False
  then have known: "0 < access_count s f" by simp
  note fl = SetEvictable_fields[OF assms(2) known]
  have q: "queues_inv s" and sz: "size_inv s" using assms(1) by (simp_all add: replacer_inv_def)
  have "queues_inv s'" using q known unfolding queues_inv_def fl by auto
  moreover have "size_inv s'"
  proof (cases "is_evictable s f = b")
    case True
    then have "is_evictable s' = is_evictable s" using fl(1) by auto
    then show ?thesis using fl(2) True sz by (auto intro: size_inv_same[OF sz])
  next
    case False
    show ?thesis
    proof (cases b)
      case True
      show ?thesis by (rule size_inv_set[OF sz q, of f]) (use True fl(1,2) False in auto)
    next
      case nb: False
      show ?thesis by (rule size_inv_clear[OF sz q, of f]) (use nb fl(1,2) False in auto)
    qed
  qed
  ultimately show ?thesis by (simp add: replacer_inv_def)
qed

lemma Remove_inv:
  assumes "replacer_inv s" "Remove f s = Inr s'"
  shows "replacer_inv s'"
proof (cases "access_count s f = 0")
  case True
  then show ?thesis using assms by (simp add: Remove_def)
next
  case False
  have q: "queues_inv s" and sz: "size_inv s" using assms(1) by (simp_all add: replacer_inv_def)
  have ev: "is_evictable s f" using assms(2) False by (auto simp: Remove_def split: if_splits)
  have "queues_inv s'" using assms(2) q False
    unfolding Remove_def queues_inv_def by (auto split: if_splits)
  moreover have "size_inv s'"
    by (rule size_inv_clear[OF sz q ev]) (use assms(2) False in \<open>auto simp: Remove_def split: if_splits\<close>)
  ultimately show ?thesis by (simp add: replacer_inv_def)
qed

lemma find_rev_Some:
  "find P (rev xs) = Some x \<Longrightarrow> x \<in> set xs \<and> P x"
  by (metis find_Some_iff nth_mem set_rev)

lemma evict_history_inv:
  assumes "replacer_inv s" "f \<in> set (history_list s)" "is_evictable s f"
    "evict_history f s = Inr (r, s')"
  shows "replacer_inv s'"
proof -
  have q: "queues_inv s" and sz: "size_inv s" using assms(1) by (simp_all add: replacer_inv_def)
  have "queues_inv s'" using assms(2,4) q
    unfolding evict_history_def queues_inv_def by (auto split: if_splits)
  moreover have "size_inv s'"
    by (rule size_inv_clear[OF sz q assms(3)]) (use assms(4) in \<open>auto simp: evict_history_def split: if_splits\<close>)
  ultimately show ?thesis by (simp add: replacer_inv_def)
qed

lemma evict_lru_k_inv:
  assumes "replacer_inv s" "f \<in> set (lru_k_list s)" "is_evictable s f"
    "evict_lru_k f s = Inr (r, s')"
  shows "replacer_inv s'"
proof -
  have q: "queues_inv s" and sz: "size_inv s" using assms(1) by (simp_all add: replacer_inv_def)
  have "queues_inv s'" using assms(2,4) q
    unfolding evict_lru_k_def queues_inv_def by (auto split: if_splits)
  moreover have "size_inv s'"
    by (rule size_inv_clear[OF sz q assms(3)]) (use assms(4) in \<open>auto simp: evict_lru_k_def split: if_splits\<close>)
  ultimately show ?thesis by (simp add: replacer_inv_def)
qed

lemma Evict_inv:
  assumes "replacer_inv s" "Evict s = Inr (r, s')"
  shows "replacer_inv s'"
proof (cases "curr_size s = 0")
  case True
  then show ?thesis using assms by (simp add: Evict_def)
next
  case nz: False
  show ?thesis
  proof (cases "find (is_evictable s) (rev (history_list s))")
    case (Some f)
    then have "evict_history f s = Inr (r, s')" using assms(2) nz by (simp add: Evict_def)
    with find_rev_Some[OF Some] assms(1) show ?thesis by (blast intro: evict_history_inv)
  next
    case None
    show ?thesis
    proof (cases "find (is_evictable s) (rev (lru_k_list s))")
      case (Some f)
      then have "evict_lru_k f s = Inr (r, s')" using assms(2) nz None by (simp add: Evict_def)
      with find_rev_Some[OF Some] assms(1) show ?thesis by (blast intro: evict_lru_k_inv)
    next
      case n2: None
      then show ?thesis using assms nz None by (simp add: Evict_def)
    qed
  qed
qed

lemma RecordAccess_defined:
  assumes "queues_inv s" "2 \<le> k s"
  shows "RecordAccess f s \<noteq> Inl Undefined"
  using assms unfolding RecordAccess_def queues_inv_def Let_def
  by (auto split: if_splits)

lemma SetEvictable_defined: "SetEvictable f b s \<noteq> Inl Undefined"
  by (simp add: SetEvictable_def Let_def)

lemma Remove_defined:
  assumes "queues_inv s"
  shows "Remove f s \<noteq> Inl Undefined"
  using known_in_queue[OF assms, of f] assms by (auto simp: Remove_def queues_inv_def)

lemma Evict_defined:
  assumes "queues_inv s"
  shows "Evict s \<noteq> Inl Undefined"
  using assms
  by (auto simp: Evict_def evict_history_def evict_lru_k_def queues_inv_def
      split: option.splits dest!: find_rev_Some)

lemma SetEvictable_k: "SetEvictable f b s = Inr s' \<Longrightarrow> k s' = k s"
  by (auto simp: SetEvictable_def Let_def split: if_splits)

lemma Remove_k: "Remove f s = Inr s' \<Longrightarrow> k s' = k s"
  by (auto simp: Remove_def split: if_splits)

lemma Evict_k: "Evict s = Inr (r, s') \<Longrightarrow> k s' = k s"
  by (auto simp: Evict_def evict_history_def evict_lru_k_def split: if_splits option.splits)

lemma continue_Some:
  "continue s r = Some s' \<Longrightarrow> r = Inr s' \<or> (r = Inl Exception \<and> s' = s)"
  by (auto simp: continue_def split: sum.splits error.splits)

lemma continue_None: "continue s r = None \<longleftrightarrow> r = Inl Undefined"
  by (auto simp: continue_def split: sum.splits error.splits)

lemma replacer_step_inv:
  assumes "replacer_inv s" "replacer_step op s = Some s'"
  shows "replacer_inv s' \<and> k s' = k s"
proof (cases op)
  case (OpRecordAccess f)
  then have "continue s (RecordAccess f s) = Some s'" using assms(2) by simp
  from continue_Some[OF this] show ?thesis
    using assms(1) RecordAccess_inv[of s f s'] RecordAccess_frame[of f s s'] by blast
next
  case (OpSetEvictable f b)
  then have "continue s (SetEvictable f b s) = Some s'" using assms(2) by simp
  from continue_Some[OF this] show ?thesis
    using assms(1) SetEvictable_inv[of s f b s'] SetEvictable_k[of f b s s'] by blast
next
  case OpEvict
  then have c: "continue s (map_sum id snd (Evict s)) = Some s'" using assms(2) by simp
  show ?thesis
  proof (cases "Evict s")
    case (Inl e)
    then show ?thesis using continue_Some[OF c] assms(1) by auto
  next
    case (Inr p)
    then obtain r where "Evict s = Inr (r, s')" using continue_Some[OF c] by (cases p) auto
    then show ?thesis using assms(1) Evict_inv Evict_k by blast
  qed
next
  case (OpRemove f)
  then have "continue s (Remove f s) = Some s'" using assms(2) by simp
  from continue_Some[OF this] show ?thesis
    using assms(1) Remove_inv[of s f s'] Remove_k[of f s s'] by blast
qed

lemma replacer_step_defined:
  assumes "replacer_inv s" "2 \<le> k s"
  shows "replacer_step op s \<noteq> None"
proof -
  have q: "queues_inv s" using assms(1) by (simp add: replacer_inv_def)
  show ?thesis
  proof (cases op)
    case (OpRecordAccess f)
    then show ?thesis using RecordAccess_defined[OF q assms(2), of f]
      by (simp add: continue_None)
  next
    case (OpSetEvictable f b)
    then show ?thesis using SetEvictable_defined[of f b s]
      by (simp add: continue_None)
  next
    case OpEvict
    then show ?thesis using Evict_defined[OF q]
      by (cases "Evict s") (simp_all add: continue_None)
  next
    case (OpRemove f)
    then show ?thesis using Remove_defined[OF q, of f]
      by (simp add: continue_None)
  qed
qed

lemma replacer_run_inv:
  "replacer_inv s \<Longrightarrow> replacer_run ops s = Some s' \<Longrightarrow> replacer_inv s' \<and> k s' = k s"
proof (induction ops arbitrary: s)
  case Nil
  then show ?case by simp
next
  case (Cons op ops)
  then obtain s1 where s1: "replacer_step op s = Some s1" "replacer_run ops s1 = Some s'"
    by (auto split: option.splits)
  from replacer_step_inv[OF Cons.prems(1) s1(1)] Cons.IH[OF _ s1(2)]
  show ?case by simp
qed

lemma replacer_run_defined:
  "replacer_inv s \<Longrightarrow> 2 \<le> k s \<Longrightarrow> replacer_run ops s \<noteq> None"
proof (induction ops arbitrary: s)
  case Nil
  then show ?case by simp
next
  case (Cons op ops)
  from replacer_step_defined[OF Cons.prems, of op]
  obtain s1 where s1: "replacer_step op s = Some s1" by auto
  from replacer_step_inv[OF Cons.prems(1) s1] Cons.prems(2) Cons.IH[of s1] s1
  show ?case by simp
qed

lemma RecordAccess_history_order:
  assumes "RecordAccess f s = Inr s'" "access_count s f + 1 < k s"
  shows "history_list s' = (if f \<in> history_hash s then history_list s else f # history_list s)"
    and "lru_k_list s' = lru_k_list s"
  using assms by (auto simp: RecordAccess_def Let_def split: if_splits)

lemma RecordAccess_lru_k_order:
  assumes "RecordAccess f s = Inr s'" "k s < access_count s f + 1"
  shows "lru_k_list s' = f # (if f \<in> lru_k_hash s then remove1 f (lru_k_list s) else lru_k_list s)"
    and "history_list s' = history_list s"
  using assms by (auto simp: RecordAccess_def Let_def split: if_splits)

lemma RecordAccess_promote:
  assumes "RecordAccess f s = Inr s'" "access_count s f + 1 = k s"
  shows "lru_k_list s' = f # lru_k_list s" and "history_list s' = remove1 f (history_list s)"
  using assms by (auto simp: RecordAccess_def Let_def split: if_splits)

subsection \<open>Eviction\<close>

lemma example_run: "replacer_run example_ops (LRUKReplacer 7 2) = Some example_state"
  by (simp add: example_ops_def example_state_def LRUKReplacer_def RecordAccess_def
      SetEvictable_def continue_def Let_def dec_size_def numeral_2_eq_2)

lemma find_rev_split:
  "find P (rev xs) = Some x \<Longrightarrow> \<exists>us vs. xs = us @ x # vs \<and> P x \<and> (\<forall>y\<in>set vs. \<not> P y)"
proof (induction xs rule: rev_induct)
  case Nil
  then show ?case by simp
next
  case (snoc a xs)
  show ?case
  proof (cases "P a")
    case True
    then have "x = a" using snoc.prems by simp
    then show ?thesis using True by (intro exI[of _ xs] exI[of _ "[]"]) simp
  next
    case False
    then have "find P (rev xs) = Some x" using snoc.prems by simp
    from snoc.IH[OF this] obtain us vs where "xs = us @ x # vs" "P x" "\<forall>y\<in>set vs. \<not> P y"
      by blast
    then show ?thesis using False by (intro exI[of _ us] exI[of _ "vs @ [a]"]) simp
  qed
qed

lemma find_rev_None: "find P (rev xs) = None \<longleftrightarrow> (\<forall>x\<in>set xs. \<not> P x)"
  by (auto simp: find_None_iff)

lemma evict_history_effect:
  assumes "replacer_inv s" "f \<in> set (history_list s)" "is_evictable s f"
  shows "\<exists>s'. evict_history f s = Inr (Some f, s') \<and>
     f \<notin> set (history_list s') \<and> f \<notin> set (lru_k_list s') \<and>
     f \<notin> history_hash s' \<and> f \<notin> lru_k_hash s' \<and>
     access_count s' f = 0 \<and> \<not> is_evictable s' f \<and> curr_size s' + 1 = curr_size s"
proof -
  have q: "queues_inv s" and sz: "size_inv s" using assms(1) by (simp_all add: replacer_inv_def)
  have "0 < card {g. is_evictable s g}"
    using evictable_finite[OF q] assms(3) by (auto simp: card_gt_0_iff)
  then have "0 < curr_size s" using sz by (simp add: size_inv_def)
  moreover have "f \<notin> set (lru_k_list s)" using q assms(2) by (auto simp: queues_inv_def)
  ultimately show ?thesis using q assms(2)
    by (auto simp: evict_history_def queues_inv_def dec_size_def)
qed

lemma evict_lru_k_effect:
  assumes "replacer_inv s" "f \<in> set (lru_k_list s)" "is_evictable s f"
  shows "\<exists>s'. evict_lru_k f s = Inr (Some f, s') \<and>
     f \<notin> set (history_list s') \<and> f \<notin> set (lru_k_list s') \<and>
     f \<notin> history_hash s' \<and> f \<notin> lru_k_hash s' \<and>
     access_count s' f = 0 \<and> \<not> is_evictable s' f \<and> curr_size s' + 1 = curr_size s"
proof -
  have q: "queues_inv s" and sz: "size_inv s" using assms(1) by (simp_all add: replacer_inv_def)
  have "0 < card {g. is_evictable s g}"
    using evictable_finite[OF q] assms(3) by (auto simp: card_gt_0_iff)
  then have "0 < curr_size s" using sz by (simp add: size_inv_def)
  moreover have "f \<notin> set (history_list s)" using q assms(2) by (auto simp: queues_inv_def)
  ultimately show ?thesis using q assms(2)
    by (auto simp: evict_lru_k_def queues_inv_def dec_size_def)
qed

text \<open>
  \<open>Evict\<close> by position: in a state that satisfies the invariant and has an evictable
  frame, the victim is the evictable frame nearest the back of the history list if that
  list has an evictable frame, else the evictable frame nearest the back of the K list; and
  the victim is removed completely.
\<close>

lemma Evict_back_most:
  assumes "replacer_inv s" and "is_evictable s g"
  shows "\<exists>f s'. Evict s = Inr (Some f, s') \<and> is_evictable s f \<and>
     (if \<exists>h\<in>set (history_list s). is_evictable s h
      then access_count s f < k s \<and>
           (\<exists>us vs. history_list s = us @ f # vs \<and> (\<forall>h\<in>set vs. \<not> is_evictable s h))
      else k s \<le> access_count s f \<and>
           (\<exists>us vs. lru_k_list s = us @ f # vs \<and> (\<forall>h\<in>set vs. \<not> is_evictable s h))) \<and>
     f \<notin> set (history_list s') \<and> f \<notin> set (lru_k_list s') \<and>
     f \<notin> history_hash s' \<and> f \<notin> lru_k_hash s' \<and>
     access_count s' f = 0 \<and> \<not> is_evictable s' f \<and> curr_size s' + 1 = curr_size s"
proof -
  have q: "queues_inv s" and sz: "size_inv s" using assms(1) by (simp_all add: replacer_inv_def)
  have "0 < card {g. is_evictable s g}"
    using evictable_finite[OF q] assms(2) by (auto simp: card_gt_0_iff)
  then have nz: "curr_size s \<noteq> 0" using sz by (simp add: size_inv_def)
  have gq: "g \<in> set (history_list s) \<or> g \<in> set (lru_k_list s)"
    using known_in_queue[OF q, of g] q assms(2) by (simp add: queues_inv_def)
  show ?thesis
  proof (cases "find (is_evictable s) (rev (history_list s))")
    case (Some f)
    from find_rev_split[OF Some] obtain us vs where
      sp: "history_list s = us @ f # vs" "is_evictable s f" "\<forall>h\<in>set vs. \<not> is_evictable s h"
      by blast
    then have fin: "f \<in> set (history_list s)" by simp
    then have cnt: "access_count s f < k s" using q by (simp add: queues_inv_def)
    have ev: "Evict s = evict_history f s" using Some nz by (simp add: Evict_def)
    from evict_history_effect[OF assms(1) fin sp(2)] obtain s' where
      "evict_history f s = Inr (Some f, s')" "f \<notin> set (history_list s')"
      "f \<notin> set (lru_k_list s')" "f \<notin> history_hash s'" "f \<notin> lru_k_hash s'"
      "access_count s' f = 0" "\<not> is_evictable s' f" "curr_size s' + 1 = curr_size s"
      by blast
    then show ?thesis using ev sp fin cnt by (intro exI[of _ f] exI[of _ s']) auto
  next
    case None
    then have noH: "\<not> (\<exists>h\<in>set (history_list s). is_evictable s h)"
      by (simp add: find_rev_None)
    then have "g \<in> set (lru_k_list s)" using gq assms(2) by blast
    then have "find (is_evictable s) (rev (lru_k_list s)) \<noteq> None"
      using assms(2) by (auto simp: find_rev_None)
    then obtain f where Some: "find (is_evictable s) (rev (lru_k_list s)) = Some f" by blast
    from find_rev_split[OF Some] obtain us vs where
      sp: "lru_k_list s = us @ f # vs" "is_evictable s f" "\<forall>h\<in>set vs. \<not> is_evictable s h"
      by blast
    then have fin: "f \<in> set (lru_k_list s)" by simp
    then have cnt: "k s \<le> access_count s f" using q by (simp add: queues_inv_def)
    have ev: "Evict s = evict_lru_k f s" using Some None nz by (simp add: Evict_def)
    from evict_lru_k_effect[OF assms(1) fin sp(2)] obtain s' where
      "evict_lru_k f s = Inr (Some f, s')" "f \<notin> set (history_list s')"
      "f \<notin> set (lru_k_list s')" "f \<notin> history_hash s'" "f \<notin> lru_k_hash s'"
      "access_count s' f = 0" "\<not> is_evictable s' f" "curr_size s' + 1 = curr_size s"
      by blast
    then show ?thesis using ev sp fin cnt noH by (intro exI[of _ f] exI[of _ s']) auto
  qed
qed

subsection \<open>Eviction order and access times\<close>

lemma in_remove1D: "y \<in> set (remove1 x xs) \<Longrightarrow> y \<in> set xs"
  by (meson notin_set_remove1)

lemma sorted_wrt_remove1: "sorted_wrt P xs \<Longrightarrow> sorted_wrt P (remove1 x xs)"
  by (induction xs) (auto dest: in_remove1D)

lemma sorted_wrt_eq_on:
  "(\<And>a b. a \<in> set xs \<Longrightarrow> b \<in> set xs \<Longrightarrow> P a b = Q a b) \<Longrightarrow>
     sorted_wrt P xs = sorted_wrt Q xs"
  by (induction xs) auto

lemma sorted_wrt_upd_other:
  assumes "f \<notin> set xs"
  shows "sorted_wrt (\<lambda>a b. (t(f := n)) b < (t(f := n)) a) xs =
         sorted_wrt (\<lambda>a b. t b < (t a :: nat)) xs"
  using assms by (intro sorted_wrt_eq_on) auto

lemma sorted_upd:
  assumes "f \<notin> set xs" "sorted_wrt (\<lambda>a b. t b < (t a :: nat)) xs"
  shows "sorted_wrt (\<lambda>a b. (t(f := n)) b < (t(f := n)) a) xs"
  using sorted_wrt_upd_other[OF assms(1), of t n] assms(2) by blast

lemma sorted_push:
  assumes "f \<notin> set xs" "sorted_wrt (\<lambda>a b. t b < (t a :: nat)) xs" "\<forall>x\<in>set xs. t x < n"
  shows "sorted_wrt (\<lambda>a b. (t(f := n)) b < (t(f := n)) a) (f # xs)"
proof -
  have "\<forall>x\<in>set xs. (t(f := n)) x < (t(f := n)) f" using assms(1,3) by auto
  then show ?thesis using sorted_upd[OF assms(1,2), of n] by (simp only: sorted_wrt.simps)
qed

lemma timed_inv_init: "timed_inv (timed_init n k')"
  using inv_init[of n k'] by (simp add: timed_inv_def timed_init_def LRUKReplacer_def)

lemma RecordAccess_lists:
  assumes q: "queues_inv s" and r: "RecordAccess f s = Inr s'"
  shows "access_count s f + 1 < k s \<Longrightarrow> access_count s f = 0 \<Longrightarrow>
           history_list s' = f # history_list s \<and> lru_k_list s' = lru_k_list s \<and>
           f \<notin> set (history_list s) \<and> f \<notin> set (lru_k_list s)"
    and "access_count s f + 1 < k s \<Longrightarrow> access_count s f \<noteq> 0 \<Longrightarrow>
           history_list s' = history_list s \<and> lru_k_list s' = lru_k_list s \<and>
           f \<notin> set (lru_k_list s)"
    and "access_count s f + 1 = k s \<Longrightarrow>
           history_list s' = remove1 f (history_list s) \<and> lru_k_list s' = f # lru_k_list s \<and>
           f \<notin> set (lru_k_list s)"
    and "k s < access_count s f + 1 \<Longrightarrow>
           history_list s' = history_list s \<and> lru_k_list s' = f # remove1 f (lru_k_list s) \<and>
           f \<notin> set (history_list s)"
proof -
  have hh: "history_hash s = set (history_list s)" and kh: "lru_k_hash s = set (lru_k_list s)"
    and H: "f \<in> set (history_list s) \<longleftrightarrow> 1 \<le> access_count s f \<and> access_count s f < k s"
    and K: "f \<in> set (lru_k_list s) \<longleftrightarrow> 1 \<le> access_count s f \<and> k s \<le> access_count s f"
    using q by (simp_all add: queues_inv_def)
  show "access_count s f + 1 < k s \<Longrightarrow> access_count s f = 0 \<Longrightarrow>
           history_list s' = f # history_list s \<and> lru_k_list s' = lru_k_list s \<and>
           f \<notin> set (history_list s) \<and> f \<notin> set (lru_k_list s)"
    using r hh H K by (auto simp: RecordAccess_def Let_def split: if_splits)
  show "access_count s f + 1 < k s \<Longrightarrow> access_count s f \<noteq> 0 \<Longrightarrow>
           history_list s' = history_list s \<and> lru_k_list s' = lru_k_list s \<and>
           f \<notin> set (lru_k_list s)"
    using r hh H K by (auto simp: RecordAccess_def Let_def split: if_splits)
  show "access_count s f + 1 = k s \<Longrightarrow>
           history_list s' = remove1 f (history_list s) \<and> lru_k_list s' = f # lru_k_list s \<and>
           f \<notin> set (lru_k_list s)"
    using r hh H K by (auto simp: RecordAccess_def Let_def split: if_splits)
  show "k s < access_count s f + 1 \<Longrightarrow>
           history_list s' = history_list s \<and> lru_k_list s' = f # remove1 f (lru_k_list s) \<and>
           f \<notin> set (history_list s)"
    using r kh H K by (auto simp: RecordAccess_def Let_def remove1_idem split: if_splits)
qed

lemma step_lists_shrink:
  assumes "replacer_step op s = Some s'" and "\<And>f. op \<noteq> OpRecordAccess f"
  shows "\<exists>f. (history_list s' = history_list s \<or> history_list s' = remove1 f (history_list s)) \<and>
             (lru_k_list s' = lru_k_list s \<or> lru_k_list s' = remove1 f (lru_k_list s))"
proof (cases op)
  case (OpRecordAccess f)
  then show ?thesis using assms(2) by simp
next
  case (OpSetEvictable f b)
  then have "continue s (SetEvictable f b s) = Some s'" using assms(1) by simp
  from continue_Some[OF this] show ?thesis
    by (auto simp: SetEvictable_def Let_def split: if_splits)
next
  case OpEvict
  then have c: "continue s (map_sum id snd (Evict s)) = Some s'" using assms(1) by simp
  show ?thesis
  proof (cases "Evict s")
    case (Inl e)
    then show ?thesis using continue_Some[OF c] by auto
  next
    case (Inr p)
    then obtain r where "Evict s = Inr (r, s')" using continue_Some[OF c] by (cases p) auto
    then show ?thesis
      by (auto simp: Evict_def evict_history_def evict_lru_k_def split: if_splits option.splits)
  qed
next
  case (OpRemove f)
  then have "continue s (Remove f s) = Some s'" using assms(1) by simp
  from continue_Some[OF this] show ?thesis
    by (auto simp: Remove_def split: if_splits)
qed

lemma timed_step_state:
  "timed_step op \<tau> = Some \<tau>' \<Longrightarrow> replacer_step op (state \<tau>) = Some (state \<tau>')"
  by (cases op) (auto simp: timed_step_def stamp_def split: if_splits)

lemma timed_step_inv:
  assumes inv: "timed_inv \<tau>" and st: "timed_step op \<tau> = Some \<tau>'"
  shows "timed_inv \<tau>'"
proof -
  let ?s = "state \<tau>" and ?s' = "state \<tau>'"
  note rs = timed_step_state[OF st]
  have ri: "replacer_inv ?s" and sh: "sorted_wrt (\<lambda>a b. first_access \<tau> b < first_access \<tau> a) (history_list ?s)"
    and sk: "sorted_wrt (\<lambda>a b. last_access \<tau> b < last_access \<tau> a) (lru_k_list ?s)"
    and bh: "\<forall>f\<in>set (history_list ?s). first_access \<tau> f < now \<tau>"
    and bk: "\<forall>f\<in>set (lru_k_list ?s). last_access \<tau> f < now \<tau>"
    using inv by (simp_all add: timed_inv_def)
  have ri': "replacer_inv ?s'" using replacer_step_inv[OF ri rs] by simp
  have q: "queues_inv ?s" using ri by (simp add: replacer_inv_def)
  have dk: "distinct (lru_k_list ?s)" and dh: "distinct (history_list ?s)"
    using q by (simp_all add: queues_inv_def)
  obtain s' where s': "replacer_step op ?s = Some s'" and t': "\<tau>' = stamp op \<tau> s'"
    using st by (auto simp: timed_step_def)
  have plain: "timed_inv \<tau>'"
    if e: "\<tau>' = \<tau>\<lparr>state := s', now := now \<tau> + 1\<rparr>"
      and l: "history_list s' = history_list ?s \<or> history_list s' = remove1 f (history_list ?s)"
        "lru_k_list s' = lru_k_list ?s \<or> lru_k_list s' = remove1 f (lru_k_list ?s)" for f
  proof -
    have 1: "sorted_wrt (\<lambda>a b. first_access \<tau> b < first_access \<tau> a) (history_list s')"
      using l(1) sh sorted_wrt_remove1[OF sh, of f] by auto
    have 2: "sorted_wrt (\<lambda>a b. last_access \<tau> b < last_access \<tau> a) (lru_k_list s')"
      using l(2) sk sorted_wrt_remove1[OF sk, of f] by auto
    have 3: "\<forall>g\<in>set (history_list s'). first_access \<tau> g < now \<tau> + 1"
      using l(1) bh by (auto dest: in_remove1D simp: less_Suc_eq)
    have 4: "\<forall>g\<in>set (lru_k_list s'). last_access \<tau> g < now \<tau> + 1"
      using l(2) bk by (auto dest: in_remove1D simp: less_Suc_eq)
    show ?thesis using ri' 1 2 3 4 unfolding timed_inv_def e by simp
  qed
  show ?thesis
  proof (cases "\<exists>f. op = OpRecordAccess f \<and> \<not> isl (RecordAccess f ?s)")
    case False
    then have e: "\<tau>' = \<tau>\<lparr>state := s', now := now \<tau> + 1\<rparr>"
      using t' by (auto simp: stamp_def split: replacer_op.splits)
    show ?thesis
    proof (cases "\<exists>f. op = OpRecordAccess f")
      case True
      then obtain f where "op = OpRecordAccess f" "isl (RecordAccess f ?s)" using False by auto
      then have "s' = ?s" using s' by (cases "RecordAccess f ?s") (auto simp: continue_def split: error.splits)
      then show ?thesis using plain[OF e, of 0] by simp
    next
      case nr: False
      from step_lists_shrink[OF s'] nr obtain f where
        "history_list s' = history_list ?s \<or> history_list s' = remove1 f (history_list ?s)"
        "lru_k_list s' = lru_k_list ?s \<or> lru_k_list s' = remove1 f (lru_k_list ?s)" by blast
      then show ?thesis using plain[OF e] by blast
    qed
  next
    case True
    then obtain f where op: "op = OpRecordAccess f" and ok: "\<not> isl (RecordAccess f ?s)" by blast
    then have r: "RecordAccess f ?s = Inr s'" using s' by (cases "RecordAccess f ?s") (auto simp: continue_def)
    let ?fa = "if access_count ?s f = 0 then (first_access \<tau>)(f := now \<tau>) else first_access \<tau>"
    let ?la = "(last_access \<tau>)(f := now \<tau>)"
    have e: "\<tau>' = \<tau>\<lparr>state := s', now := now \<tau> + 1, first_access := ?fa, last_access := ?la\<rparr>"
      using t' op ok by (simp add: stamp_def)
    note L = RecordAccess_lists[OF q r]
    consider (new) "access_count ?s f + 1 < k ?s" "access_count ?s f = 0"
      | (again) "access_count ?s f + 1 < k ?s" "access_count ?s f \<noteq> 0"
      | (promote) "access_count ?s f + 1 = k ?s"
      | (front) "k ?s < access_count ?s f + 1"
      by linarith
    then show ?thesis
    proof cases
      case new
      note l = L(1)[OF new]
      have fa: "?fa = (first_access \<tau>)(f := now \<tau>)" using new(2) by simp
      have 1: "sorted_wrt (\<lambda>a b. ?fa b < ?fa a) (history_list s')"
        unfolding fa using l sorted_push[OF _ sh bh, of f] by simp
      have 2: "sorted_wrt (\<lambda>a b. ?la b < ?la a) (lru_k_list s')"
        using l sorted_upd[OF _ sk, of f] by simp
      have 3: "\<forall>g\<in>set (history_list s'). ?fa g < now \<tau> + 1"
        unfolding fa using l bh by (auto simp: less_Suc_eq)
      have 4: "\<forall>g\<in>set (lru_k_list s'). ?la g < now \<tau> + 1"
        using l bk by (auto simp: less_Suc_eq)
      show ?thesis using ri' 1 2 3 4 unfolding timed_inv_def e by simp
    next
      case again
      note l = L(2)[OF again]
      have fa: "?fa = first_access \<tau>" using again(2) by simp
      have 1: "sorted_wrt (\<lambda>a b. ?fa b < ?fa a) (history_list s')"
        unfolding fa using l sh by simp
      have 2: "sorted_wrt (\<lambda>a b. ?la b < ?la a) (lru_k_list s')"
        using l sorted_upd[OF _ sk, of f] by simp
      have 3: "\<forall>g\<in>set (history_list s'). ?fa g < now \<tau> + 1"
        unfolding fa using l bh by (auto simp: less_Suc_eq)
      have 4: "\<forall>g\<in>set (lru_k_list s'). ?la g < now \<tau> + 1"
        using l bk by (auto simp: less_Suc_eq)
      show ?thesis using ri' 1 2 3 4 unfolding timed_inv_def e by simp
    next
      case promote
      note l = L(3)[OF promote]
      have nh: "f \<notin> set (remove1 f (history_list ?s))" using dh by simp
      have srt: "sorted_wrt (\<lambda>a b. first_access \<tau> b < first_access \<tau> a) (remove1 f (history_list ?s))"
        using sh by (rule sorted_wrt_remove1)
      have 1: "sorted_wrt (\<lambda>a b. ?fa b < ?fa a) (history_list s')"
      proof (cases "access_count ?s f = 0")
        case True
        then have fa: "?fa = (first_access \<tau>)(f := now \<tau>)" by simp
        show ?thesis unfolding fa using l sorted_upd[OF nh srt] by simp
      next
        case False
        then have fa: "?fa = first_access \<tau>" by simp
        show ?thesis unfolding fa using l srt by simp
      qed
      have 2: "sorted_wrt (\<lambda>a b. ?la b < ?la a) (lru_k_list s')"
        using l sorted_push[OF _ sk bk, of f] by simp
      have 3: "\<forall>g\<in>set (history_list s'). ?fa g < now \<tau> + 1"
        using l bh by (auto dest: in_remove1D simp: less_Suc_eq)
      have 4: "\<forall>g\<in>set (lru_k_list s'). ?la g < now \<tau> + 1"
        using l bk by (auto simp: less_Suc_eq)
      show ?thesis using ri' 1 2 3 4 unfolding timed_inv_def e by simp
    next
      case front
      note l = L(4)[OF front]
      have nf: "f \<notin> set (remove1 f (lru_k_list ?s))" using dk by simp
      have srt: "sorted_wrt (\<lambda>a b. last_access \<tau> b < last_access \<tau> a) (remove1 f (lru_k_list ?s))"
        using sk by (rule sorted_wrt_remove1)
      have bnd: "\<forall>x\<in>set (remove1 f (lru_k_list ?s)). last_access \<tau> x < now \<tau>"
        using bk by (auto dest: in_remove1D)
      have 1: "sorted_wrt (\<lambda>a b. ?fa b < ?fa a) (history_list s')"
      proof (cases "access_count ?s f = 0")
        case True
        then have fa: "?fa = (first_access \<tau>)(f := now \<tau>)" by simp
        show ?thesis unfolding fa using l sorted_upd[OF _ sh, of f] by simp
      next
        case False
        then have fa: "?fa = first_access \<tau>" by simp
        show ?thesis unfolding fa using l sh by simp
      qed
      have 2: "sorted_wrt (\<lambda>a b. ?la b < ?la a) (lru_k_list s')"
        using l sorted_push[OF nf srt bnd] by simp
      have 3: "\<forall>g\<in>set (history_list s'). ?fa g < now \<tau> + 1"
        using l bh by (auto simp: less_Suc_eq)
      have 4: "\<forall>g\<in>set (lru_k_list s'). ?la g < now \<tau> + 1"
        using l bk by (auto dest: in_remove1D simp: less_Suc_eq)
      show ?thesis using ri' 1 2 3 4 unfolding timed_inv_def e by simp
    qed
  qed
qed

lemma timed_run_inv:
  "timed_inv \<tau> \<Longrightarrow> timed_run ops \<tau> = Some \<tau>' \<Longrightarrow> timed_inv \<tau>'"
proof (induction ops arbitrary: \<tau>)
  case Nil
  then show ?case by simp
next
  case (Cons op ops)
  then obtain \<tau>1 where "timed_step op \<tau> = Some \<tau>1" "timed_run ops \<tau>1 = Some \<tau>'"
    by (auto split: option.splits)
  then show ?case using Cons.IH timed_step_inv[OF Cons.prems(1)] by blast
qed

lemma timed_example_run: "timed_run timed_example_ops (timed_init 7 3) = Some timed_example"
  by (simp add: timed_example_ops_def timed_example_def timed_init_def timed_step_def stamp_def
      LRUKReplacer_def RecordAccess_def SetEvictable_def continue_def Let_def dec_size_def
      eval_nat_numeral fun_upd_twist)

lemma timed_run_reachable:
  assumes "timed_run ops (timed_init n k') = Some \<tau>"
  shows "timed_inv \<tau>"
  using timed_run_inv[OF timed_inv_init assms] .

text \<open>
  Claim C2. Take the state after any sequence of operations on a fresh replacer, with at
  least one evictable frame. \<open>Evict\<close> succeeds with an evictable frame \<open>f\<close>. If some
  frame of the history list \<open>H\<close> is evictable, then \<open>f\<close> is in \<open>H\<close>, has fewer than
  \<open>k\<close> accesses, and its first access is earlier than that of every other evictable
  frame of \<open>H\<close>. Otherwise \<open>f\<close> is in the K list, has at least \<open>k\<close> accesses, and
  its most recent access is earlier than that of every other evictable frame of the K list.
  Afterwards \<open>f\<close> is in neither list and in neither iterator map, its access count is
  \<open>0\<close>, its evictable flag is clear, and \<open>curr_size\<close> is one less.
\<close>

theorem Evict_victim:
  assumes "timed_run ops (timed_init n k') = Some \<tau>" and "is_evictable (state \<tau>) g"
  shows "\<exists>f s'. Evict (state \<tau>) = Inr (Some f, s') \<and> is_evictable (state \<tau>) f \<and>
     (if \<exists>h\<in>set (history_list (state \<tau>)). is_evictable (state \<tau>) h
      then f \<in> set (history_list (state \<tau>)) \<and> access_count (state \<tau>) f < k (state \<tau>) \<and>
           (\<forall>h\<in>set (history_list (state \<tau>)). is_evictable (state \<tau>) h \<and> h \<noteq> f
              \<longrightarrow> first_access \<tau> f < first_access \<tau> h)
      else f \<in> set (lru_k_list (state \<tau>)) \<and> k (state \<tau>) \<le> access_count (state \<tau>) f \<and>
           (\<forall>h\<in>set (lru_k_list (state \<tau>)). is_evictable (state \<tau>) h \<and> h \<noteq> f
              \<longrightarrow> last_access \<tau> f < last_access \<tau> h)) \<and>
     f \<notin> set (history_list s') \<and> f \<notin> set (lru_k_list s') \<and>
     f \<notin> history_hash s' \<and> f \<notin> lru_k_hash s' \<and>
     access_count s' f = 0 \<and> \<not> is_evictable s' f \<and> curr_size s' + 1 = curr_size (state \<tau>)"
proof -
  let ?s = "state \<tau>"
  note ti = timed_run_reachable[OF assms(1)]
  have ri: "replacer_inv ?s"
    and sh: "sorted_wrt (\<lambda>a b. first_access \<tau> b < first_access \<tau> a) (history_list ?s)"
    and sk: "sorted_wrt (\<lambda>a b. last_access \<tau> b < last_access \<tau> a) (lru_k_list ?s)"
    using ti by (simp_all add: timed_inv_def)
  from Evict_back_most[OF ri assms(2)] obtain f s' where
    ev: "Evict ?s = Inr (Some f, s')" "is_evictable ?s f"
    and pos: "if \<exists>h\<in>set (history_list ?s). is_evictable ?s h
      then access_count ?s f < k ?s \<and>
           (\<exists>us vs. history_list ?s = us @ f # vs \<and> (\<forall>h\<in>set vs. \<not> is_evictable ?s h))
      else k ?s \<le> access_count ?s f \<and>
           (\<exists>us vs. lru_k_list ?s = us @ f # vs \<and> (\<forall>h\<in>set vs. \<not> is_evictable ?s h))"
    and rm: "f \<notin> set (history_list s')" "f \<notin> set (lru_k_list s')"
      "f \<notin> history_hash s'" "f \<notin> lru_k_hash s'"
      "access_count s' f = 0" "\<not> is_evictable s' f" "curr_size s' + 1 = curr_size ?s"
    by blast
  have earliest: "f \<in> set xs \<and> (\<forall>h\<in>set xs. is_evictable ?s h \<and> h \<noteq> f \<longrightarrow> t f < t h)"
    if "sorted_wrt (\<lambda>a b. t b < (t a :: nat)) xs" "xs = us @ f # vs" "\<forall>h\<in>set vs. \<not> is_evictable ?s h"
    for xs us vs t
    using that by (auto simp: sorted_wrt_append)
  have "if \<exists>h\<in>set (history_list ?s). is_evictable ?s h
      then f \<in> set (history_list ?s) \<and> access_count ?s f < k ?s \<and>
           (\<forall>h\<in>set (history_list ?s). is_evictable ?s h \<and> h \<noteq> f
              \<longrightarrow> first_access \<tau> f < first_access \<tau> h)
      else f \<in> set (lru_k_list ?s) \<and> k ?s \<le> access_count ?s f \<and>
           (\<forall>h\<in>set (lru_k_list ?s). is_evictable ?s h \<and> h \<noteq> f
              \<longrightarrow> last_access \<tau> f < last_access \<tau> h)"
  proof (cases "\<exists>h\<in>set (history_list ?s). is_evictable ?s h")
    case True
    then obtain us vs where "access_count ?s f < k ?s" "history_list ?s = us @ f # vs"
      "\<forall>h\<in>set vs. \<not> is_evictable ?s h" using pos by auto
    then show ?thesis using True earliest[OF sh] by simp
  next
    case False
    then obtain us vs where "k ?s \<le> access_count ?s f" "lru_k_list ?s = us @ f # vs"
      "\<forall>h\<in>set vs. \<not> is_evictable ?s h" using pos by auto
    then show ?thesis using False earliest[OF sk] by simp
  qed
  then show ?thesis using ev rm by blast
qed

text \<open>
  The theorem after \<open>timed_example_ops\<close> (\<open>k = 3\<close>): the history list is
  \<open>[4, 3, 2, 1]\<close> with \<open>1\<close>, \<open>2\<close> and \<open>4\<close> evictable; the victim is \<open>1\<close>, the
  frame accessed first.
\<close>

theorem Evict_victim_witness:
  "timed_run timed_example_ops (timed_init 7 3) = Some timed_example \<and>
   is_evictable (state timed_example) 4 \<and>
   fst (projr (Evict (state timed_example))) = Some 1 \<and>
   history_list (snd (projr (Evict (state timed_example)))) = [4, 3, 2] \<and>
   curr_size (snd (projr (Evict (state timed_example)))) = 2"
proof -
  have ev: "is_evictable (state timed_example) 4" by (simp add: timed_example_def)
  from Evict_victim[OF timed_example_run ev]
  obtain f s' where "Evict (state timed_example) = Inr (Some f, s')" by blast
  moreover have "fst (projr (Evict (state timed_example))) = Some 1"
    "history_list (snd (projr (Evict (state timed_example)))) = [4, 3, 2]"
    "curr_size (snd (projr (Evict (state timed_example)))) = 2"
    by (simp_all add: Evict_def evict_history_def timed_example_def dec_size_def)
  ultimately show ?thesis using timed_example_run ev by simp
qed

subsection \<open>Reachable states\<close>

lemma replacer_run_reachable:
  assumes "replacer_run ops (LRUKReplacer n k') = Some s"
  shows "replacer_inv s"
  using replacer_run_inv[OF inv_init assms] by simp

lemma replacer_run_k:
  assumes "replacer_run ops (LRUKReplacer n k') = Some s"
  shows "k s = k'"
  using replacer_run_inv[OF inv_init assms] by (simp add: LRUKReplacer_def)

lemma known_frame_queues:
  assumes "replacer_run ops (LRUKReplacer n k') = Some s"
  shows "(0 < access_count s f \<longleftrightarrow> f \<in> set (history_list s) \<or> f \<in> set (lru_k_list s)) \<and>
         \<not> (f \<in> set (history_list s) \<and> f \<in> set (lru_k_list s)) \<and>
         (f \<in> set (history_list s) \<longleftrightarrow> 1 \<le> access_count s f \<and> access_count s f < k')"
proof -
  have q: "queues_inv s" using replacer_run_reachable[OF assms] by (simp add: replacer_inv_def)
  have H: "f \<in> set (history_list s) \<longleftrightarrow> 1 \<le> access_count s f \<and> access_count s f < k s"
    and K: "f \<in> set (lru_k_list s) \<longleftrightarrow> 1 \<le> access_count s f \<and> k s \<le> access_count s f"
    using q by (simp_all add: queues_inv_def)
  show ?thesis unfolding H K replacer_run_k[OF assms] by auto
qed

text \<open>
  Claim C3. In every state that a run reaches, a known frame is in exactly one of \<open>H\<close>
  and the K list, and in \<open>H\<close> exactly when its count is in \<open>[1, k)\<close>
  (\<open>known_frame_queues\<close>); for \<open>k \<ge> 2\<close> every run reaches a state
  (\<open>replacer_run_defined\<close>). For \<open>k = 1\<close> the
  first access of a frame takes the branch \<open>access_count_[frame_id] == k_\<close>, which
  erases \<open>history_hash_[frame_id]\<close> from the history list although the frame was never
  put there: the iterator is value-initialised and the call is undefined, instead of
  placing the frame in the K list.
\<close>

theorem RecordAccess_k1_undefined:
  "RecordAccess 1 (LRUKReplacer 7 1) = Inl Undefined"
  by (simp add: RecordAccess_def LRUKReplacer_def)

lemma known_evictable:
  assumes "queues_inv s"
  shows "{f. 0 < access_count s f \<and> is_evictable s f} = {f. is_evictable s f}"
  using assms by (auto simp: queues_inv_def)

text \<open>
  Claim C4. Whatever the sequence of operations run on a fresh replacer, the state it
  ends in has \<open>Size\<close> equal to the number of known frames (access count positive) whose
  evictable flag is set. Calls that throw are part of the sequence (they leave the
  replacer as it was). For \<open>k \<ge> 2\<close> every sequence does end in a state: no call is
  undefined.
\<close>

theorem Size_counts_evictable:
  "(replacer_run ops (LRUKReplacer n k') = Some s \<longrightarrow>
      Size s = card {f. 0 < access_count s f \<and> is_evictable s f}) \<and>
   (2 \<le> k' \<longrightarrow> replacer_run ops (LRUKReplacer n k') \<noteq> None)"
proof (intro conjI impI)
  assume "replacer_run ops (LRUKReplacer n k') = Some s"
  then have "replacer_inv s" by (rule replacer_run_reachable)
  then have "queues_inv s" "size_inv s" by (simp_all add: replacer_inv_def)
  then show "Size s = card {f. 0 < access_count s f \<and> is_evictable s f}"
    by (simp add: known_evictable Size_def size_inv_def)
next
  assume "2 \<le> k'"
  then have "2 \<le> k (LRUKReplacer n k')" by (simp add: LRUKReplacer_def)
  with inv_init show "replacer_run ops (LRUKReplacer n k') \<noteq> None"
    by (rule replacer_run_defined)
qed

text \<open>
  The theorem at \<open>example_ops\<close>: the run ends in \<open>example_state\<close>, whose size is
  \<open>2\<close> (frames \<open>2\<close> and \<open>3\<close>).
\<close>

theorem Size_counts_evictable_witness:
  "replacer_run example_ops (LRUKReplacer 7 2) = Some example_state \<and>
   Size example_state = 2 \<and>
   card {f. 0 < access_count example_state f \<and> is_evictable example_state f} = 2"
proof -
  have "Size example_state = 2" by (simp add: Size_def example_state_def)
  then show ?thesis
    using Size_counts_evictable[of example_ops 7 2 example_state] example_run by simp
qed

text \<open>
  Claim C5. The guard of \<open>RecordAccess\<close> and \<open>SetEvictable\<close> is
  \<open>frame_id > static_cast<frame_id_t>(replacer_size_)\<close>, so a call with
  \<open>frame_id\<close> equal to the capacity does not throw: with capacity \<open>7\<close>,
  \<open>RecordAccess 7\<close> returns normally and enters frame \<open>7\<close> into the history list,
  and \<open>SetEvictable 7 True\<close> then returns normally and raises \<open>curr_size\<close> to \<open>1\<close>.
  (The two lemmas after the theorem say when the calls do throw.)
\<close>

theorem out_of_range_at_capacity:
  "RecordAccess 7 (LRUKReplacer 7 2) =
     Inr ((LRUKReplacer 7 2)\<lparr>access_count := (\<lambda>_. 0)(7 := 1),
            history_list := [7], history_hash := {7}\<rparr>) \<and>
   SetEvictable 7 True ((LRUKReplacer 7 2)\<lparr>access_count := (\<lambda>_. 0)(7 := 1),
            history_list := [7], history_hash := {7}\<rparr>) =
     Inr ((LRUKReplacer 7 2)\<lparr>access_count := (\<lambda>_. 0)(7 := 1),
            history_list := [7], history_hash := {7}, curr_size := 1,
            is_evictable := (\<lambda>_. False)(7 := True)\<rparr>)"
  by (simp add: RecordAccess_def SetEvictable_def LRUKReplacer_def Let_def)

lemma RecordAccess_throws_iff:
  "RecordAccess f s = Inl Exception \<longleftrightarrow> f > int (replacer_size s)"
  by (simp add: RecordAccess_def Let_def)

lemma SetEvictable_throws_iff:
  "SetEvictable f b s = Inl Exception \<longleftrightarrow> f > int (replacer_size s)"
  by (simp add: SetEvictable_def Let_def)

text \<open>
  Claim C9. \<open>Remove\<close> of a frame whose access count is \<open>0\<close> returns normally and
  leaves the replacer as it was, whatever the frame identifier (also one beyond the
  capacity, or one that is not evictable): the test \<open>access_count_[frame_id] == 0\<close>
  comes first.
\<close>

theorem Remove_unknown:
  "access_count s frame_id = 0 \<Longrightarrow> Remove frame_id s = Inr s"
  by (simp add: Remove_def)

text \<open>
  The theorem at frame \<open>9\<close> of a fresh replacer of capacity \<open>7\<close>.
\<close>

theorem Remove_unknown_witness:
  "access_count (LRUKReplacer 7 2) 9 = 0 \<and> Remove 9 (LRUKReplacer 7 2) = Inr (LRUKReplacer 7 2)"
proof -
  have "access_count (LRUKReplacer 7 2) 9 = 0" by (simp add: LRUKReplacer_def)
  then show ?thesis using Remove_unknown[of "LRUKReplacer 7 2" 9] by simp
qed

text \<open>
  Claim C10. When \<open>curr_size\<close> is the number of evictable frames that are in \<open>H\<close> or
  in the K list, and every listed frame has its iterator in the map of its list, then
  \<open>curr_size > 0\<close> makes \<open>Evict\<close> succeed: the scan of \<open>H\<close> from its back, or else
  the scan of the K list from its back, finds a frame \<open>f\<close> that is evictable and is in
  \<open>H\<close> or in the K list, \<open>Evict\<close> returns this frame, clears its flag and its count
  and lowers \<open>curr_size\<close> by one. The final \<open>return false\<close> is not reached.
\<close>

theorem Evict_succeeds:
  assumes "set (history_list s) \<subseteq> history_hash s" and "set (lru_k_list s) \<subseteq> lru_k_hash s"
    and "curr_size s = card {f \<in> set (history_list s) \<union> set (lru_k_list s). is_evictable s f}"
    and "0 < curr_size s"
  shows "\<exists>f s'. Evict s = Inr (Some f, s') \<and> is_evictable s f \<and>
     (f \<in> set (history_list s) \<or> f \<in> set (lru_k_list s)) \<and>
     (find (is_evictable s) (rev (history_list s)) = Some f \<or>
      find (is_evictable s) (rev (history_list s)) = None \<and>
      find (is_evictable s) (rev (lru_k_list s)) = Some f) \<and>
     \<not> is_evictable s' f \<and> access_count s' f = 0 \<and> curr_size s' + 1 = curr_size s"
proof -
  have "{f \<in> set (history_list s) \<union> set (lru_k_list s). is_evictable s f} \<noteq> {}"
    using assms(3,4) by (metis card.empty less_numeral_extra(3))
  then obtain g where g: "g \<in> set (history_list s) \<union> set (lru_k_list s)" "is_evictable s g"
    by blast
  have nz: "curr_size s \<noteq> 0" using assms(4) by simp
  show ?thesis
  proof (cases "find (is_evictable s) (rev (history_list s))")
    case (Some f)
    note m = find_rev_Some[OF Some]
    then have "f \<in> history_hash s" using assms(1) by blast
    then have "Evict s = Inr (Some f, s\<lparr>history_list := remove1 f (history_list s),
               history_hash := history_hash s - {f},
               is_evictable := (is_evictable s)(f := False),
               access_count := (access_count s)(f := 0),
               curr_size := dec_size (curr_size s)\<rparr>)"
      using Some nz by (simp add: Evict_def evict_history_def)
    then show ?thesis using m Some nz by (auto simp: dec_size_def)
  next
    case None
    then have "g \<in> set (lru_k_list s)" using g by (auto simp: find_rev_None)
    then have "find (is_evictable s) (rev (lru_k_list s)) \<noteq> None"
      using g(2) by (auto simp: find_rev_None)
    then obtain f where Some: "find (is_evictable s) (rev (lru_k_list s)) = Some f" by blast
    note m = find_rev_Some[OF Some]
    then have "f \<in> lru_k_hash s" using assms(2) by blast
    then have "Evict s = Inr (Some f, s\<lparr>lru_k_list := remove1 f (lru_k_list s),
               lru_k_hash := lru_k_hash s - {f},
               is_evictable := (is_evictable s)(f := False),
               access_count := (access_count s)(f := 0),
               curr_size := dec_size (curr_size s)\<rparr>)"
      using Some None nz by (simp add: Evict_def evict_lru_k_def)
    then show ?thesis using m Some None nz by (auto simp: dec_size_def)
  qed
qed

lemma inv_counts_queued:
  assumes "replacer_inv s"
  shows "curr_size s = card {f \<in> set (history_list s) \<union> set (lru_k_list s). is_evictable s f}"
proof -
  have q: "queues_inv s" and sz: "size_inv s" using assms by (simp_all add: replacer_inv_def)
  have "{f \<in> set (history_list s) \<union> set (lru_k_list s). is_evictable s f} = {f. is_evictable s f}"
    using known_in_queue[OF q] q by (auto simp: queues_inv_def)
  then show ?thesis using sz by (simp add: size_inv_def)
qed

text \<open>
  The theorem at \<open>example_state\<close>, whose hypotheses hold since it is reachable: the
  frame found is \<open>2\<close>, the only evictable frame of \<open>H\<close>.
\<close>

theorem Evict_succeeds_witness:
  "set (history_list example_state) \<subseteq> history_hash example_state \<and>
   set (lru_k_list example_state) \<subseteq> lru_k_hash example_state \<and>
   curr_size example_state = card {f \<in> set (history_list example_state) \<union>
      set (lru_k_list example_state). is_evictable example_state f} \<and>
   0 < curr_size example_state \<and>
   (\<exists>f s'. Evict example_state = Inr (Some f, s') \<and> is_evictable example_state f \<and>
      (f \<in> set (history_list example_state) \<or> f \<in> set (lru_k_list example_state)) \<and>
      curr_size s' + 1 = curr_size example_state) \<and>
   fst (projr (Evict example_state)) = Some 2 \<and> is_evictable example_state 2"
proof -
  have inv: "replacer_inv example_state" using example_run by (rule replacer_run_reachable)
  have h1: "set (history_list example_state) \<subseteq> history_hash example_state"
    and h2: "set (lru_k_list example_state) \<subseteq> lru_k_hash example_state"
    and h4: "0 < curr_size example_state"
    by (simp_all add: example_state_def)
  note h3 = inv_counts_queued[OF inv]
  have c: "fst (projr (Evict example_state)) = Some 2" "is_evictable example_state 2"
    by (simp_all add: Evict_def evict_history_def example_state_def)
  from Evict_succeeds[OF h1 h2 h3 h4] h1 h2 h3 h4 c show ?thesis by blast
qed

section \<open>Properties of the extendible hash table\<close>

lemma IndexOf_take_bit: "IndexOf h t key = take_bit (global_depth t) (h key)"
  by (simp add: IndexOf_def Let_def take_bit_eq_mask mask_eq_exp_minus_1)

lemma and_push_bit_1: "(i AND push_bit d (1::nat) \<noteq> 0) = bit i d"
  by (simp add: and_exp_eq_0_iff_not_bit)

lemma IndexOf_less: "length (dir t) = 2 ^ global_depth t \<Longrightarrow> IndexOf h t key < length (dir t)"
  by (simp add: IndexOf_take_bit)

lemma Bucket_Insert_fresh:
  assumes "length (list_b b) < size_b b" "key \<notin> fst ` set (list_b b)"
  shows "snd (Bucket_Insert key v b) = b\<lparr>list_b := list_b b @ [(key, v)]\<rparr>"
proof -
  have "find (\<lambda>it. fst it = key) (list_b b) = None"
    using assms(2) by (force simp: find_None_iff)
  then show ?thesis using assms(1) by (simp add: Bucket_Insert_def IsFull_def)
qed

lemma redistribute_filter:
  assumes "distinct (map fst its)"
    and "fst ` set its \<inter> fst ` set (list_b b0) = {}"
    and "fst ` set its \<inter> fst ` set (list_b b1) = {}"
    and "length (list_b b0) + length its \<le> size_b b0"
    and "length (list_b b1) + length its \<le> size_b b1"
  shows "redistribute h m its (b0, b1) =
     (b0\<lparr>list_b := list_b b0 @ filter (\<lambda>it. \<not> (h (fst it) AND m \<noteq> 0)) its\<rparr>,
      b1\<lparr>list_b := list_b b1 @ filter (\<lambda>it. h (fst it) AND m \<noteq> 0) its\<rparr>)"
  using assms
proof (induction its arbitrary: b0 b1)
  case Nil
  then show ?case by (simp add: redistribute_def)
next
  case (Cons it its)
  show ?case
  proof (cases "h (fst it) AND m \<noteq> 0")
    case True
    have ins: "snd (Bucket_Insert (fst it) (snd it) b1) = b1\<lparr>list_b := list_b b1 @ [it]\<rparr>"
      using Cons.prems by (subst Bucket_Insert_fresh) auto
    have "redistribute h m (it # its) (b0, b1) = redistribute h m its (b0, b1\<lparr>list_b := list_b b1 @ [it]\<rparr>)"
      using True ins by (simp add: redistribute_def)
    also have "\<dots> = (b0\<lparr>list_b := list_b b0 @ filter (\<lambda>it. \<not> (h (fst it) AND m \<noteq> 0)) its\<rparr>,
      (b1\<lparr>list_b := list_b b1 @ [it]\<rparr>)\<lparr>list_b := list_b (b1\<lparr>list_b := list_b b1 @ [it]\<rparr>) @ filter (\<lambda>it. h (fst it) AND m \<noteq> 0) its\<rparr>)"
      using Cons.prems by (intro Cons.IH) auto
    finally show ?thesis using True by simp
  next
    case False
    have ins: "snd (Bucket_Insert (fst it) (snd it) b0) = b0\<lparr>list_b := list_b b0 @ [it]\<rparr>"
      using Cons.prems by (subst Bucket_Insert_fresh) auto
    have "redistribute h m (it # its) (b0, b1) = redistribute h m its (b0\<lparr>list_b := list_b b0 @ [it]\<rparr>, b1)"
      using False ins by (simp add: redistribute_def)
    also have "\<dots> = ((b0\<lparr>list_b := list_b b0 @ [it]\<rparr>)\<lparr>list_b := list_b (b0\<lparr>list_b := list_b b0 @ [it]\<rparr>) @ filter (\<lambda>it. \<not> (h (fst it) AND m \<noteq> 0)) its\<rparr>,
      b1\<lparr>list_b := list_b b1 @ filter (\<lambda>it. h (fst it) AND m \<noteq> 0) its\<rparr>)"
      using Cons.prems by (intro Cons.IH) auto
    finally show ?thesis using False by simp
  qed
qed

lemma redistribute_empty:
  assumes "distinct (map fst its)" "length its \<le> n"
  shows "redistribute h (2 ^ d) its (Bucket n e, Bucket n e) =
     (\<lparr>size_b = n, depth_b = e, list_b = filter (\<lambda>it. \<not> bit (h (fst it)) d) its\<rparr>,
      \<lparr>size_b = n, depth_b = e, list_b = filter (\<lambda>it. bit (h (fst it)) d) its\<rparr>)"
  using assms by (subst redistribute_filter) (auto simp: Bucket_def and_exp_eq_0_iff_not_bit)

lemma rewire_nth:
  assumes "i < length d"
  shows "rewire origin (2 ^ e) a0 a1 d ! i =
     (if d ! i = origin then (if bit i e then a1 else a0) else d ! i)"
  using assms by (simp add: rewire_def nth_enumerate_eq and_exp_eq_0_iff_not_bit)

lemma rewire_length: "length (rewire origin m a0 a1 d) = length d"
  by (simp add: rewire_def)

lemma take_bit_eq_bits:
  "take_bit m (a::nat) = take_bit m b \<longleftrightarrow> (\<forall>n<m. bit a n = bit b n)"
  by (auto simp: bit_eq_iff bit_take_bit_iff)

lemma take_bit_eq_mono:
  "d \<le> e \<Longrightarrow> take_bit e (a::nat) = take_bit e b \<Longrightarrow> take_bit d a = take_bit d b"
  by (simp add: take_bit_eq_bits)

lemma take_bit_eq_Suc:
  "take_bit (Suc d) (a::nat) = take_bit (Suc d) b \<longleftrightarrow>
     take_bit d a = take_bit d b \<and> bit a d = bit b d"
  by (auto simp: take_bit_eq_bits less_Suc_eq)

lemma take_bit_inner:
  "d \<le> e \<Longrightarrow> take_bit d (take_bit e (a::nat)) = take_bit d a"
  by (simp add: min_def)

lemma bit_take_bit_less: "d < e \<Longrightarrow> bit (take_bit e (a::nat)) d = bit a d"
  by (simp add: bit_take_bit_iff)

lemma slot_okD:
  assumes "slot_ok h t i"
  shows "dir t ! i < length (heap t)"
    and "depth_b (bucket_at t i) \<le> global_depth t"
    and "size_b (bucket_at t i) = bucket_size t"
    and "length (list_b (bucket_at t i)) \<le> bucket_size t"
    and "distinct (map fst (list_b (bucket_at t i)))"
    and "\<And>it. it \<in> set (list_b (bucket_at t i)) \<Longrightarrow>
           take_bit (depth_b (bucket_at t i)) (h (fst it)) = take_bit (depth_b (bucket_at t i)) i"
    and "\<And>j. j < length (dir t) \<Longrightarrow>
           take_bit (depth_b (bucket_at t i)) j = take_bit (depth_b (bucket_at t i)) i \<Longrightarrow>
           dir t ! j = dir t ! i"
    and "\<And>j. j < length (dir t) \<Longrightarrow> dir t ! j = dir t ! i \<Longrightarrow>
           take_bit (depth_b (bucket_at t i)) j = take_bit (depth_b (bucket_at t i)) i"
  using assms unfolding slot_ok_def by blast+

lemma slot_okI:
  assumes "dir t ! i < length (heap t)"
    and "depth_b (bucket_at t i) \<le> global_depth t"
    and "size_b (bucket_at t i) = bucket_size t"
    and "length (list_b (bucket_at t i)) \<le> bucket_size t"
    and "distinct (map fst (list_b (bucket_at t i)))"
    and "\<And>it. it \<in> set (list_b (bucket_at t i)) \<Longrightarrow>
           take_bit (depth_b (bucket_at t i)) (h (fst it)) = take_bit (depth_b (bucket_at t i)) i"
    and "\<And>j. j < length (dir t) \<Longrightarrow>
           take_bit (depth_b (bucket_at t i)) j = take_bit (depth_b (bucket_at t i)) i \<Longrightarrow>
           dir t ! j = dir t ! i"
    and "\<And>j. j < length (dir t) \<Longrightarrow> dir t ! j = dir t ! i \<Longrightarrow>
           take_bit (depth_b (bucket_at t i)) j = take_bit (depth_b (bucket_at t i)) i"
  shows "slot_ok h t i"
  unfolding slot_ok_def using assms by blast

lemma table_invD:
  assumes "table_inv h t"
  shows "length (dir t) = 2 ^ global_depth t"
    and "\<And>i. i < length (dir t) \<Longrightarrow> slot_ok h t i"
    and "\<And>i. i < 2 ^ global_depth t \<Longrightarrow> slot_ok h t i"
  using assms unfolding table_inv_def by auto

lemma IndexOf_slot_ok:
  assumes "table_inv h t"
  shows "slot_ok h t (IndexOf h t key)" and "IndexOf h t key < length (dir t)"
  using table_invD[OF assms] by (simp_all add: IndexOf_take_bit)

lemma grow_fields:
  "global_depth (grow t) = global_depth t + 1" "bucket_size (grow t) = bucket_size t"
  "heap (grow t) = heap t" "length (dir (grow t)) = 2 * length (dir t)"
  "num_buckets (grow t) = num_buckets t"
  by (simp_all add: grow_def)

lemma grow_nth:
  assumes "length (dir t) = 2 ^ global_depth t" "i < 2 * 2 ^ global_depth t"
  shows "dir (grow t) ! i = dir t ! take_bit (global_depth t) i"
proof (cases "i < 2 ^ global_depth t")
  case True
  then show ?thesis using assms by (simp add: grow_def nth_append take_bit_nat_eq_self)
next
  case False
  then have "i mod 2 ^ global_depth t = i - 2 ^ global_depth t"
    using assms(2) by (simp add: mod_if)
  then show ?thesis using False assms by (simp add: grow_def nth_append take_bit_eq_mod)
qed

lemma grow_bucket_at:
  assumes "length (dir t) = 2 ^ global_depth t" "i < 2 * 2 ^ global_depth t"
  shows "bucket_at (grow t) i = bucket_at t (take_bit (global_depth t) i)"
  using grow_nth[OF assms] by (simp add: bucket_at_def grow_fields)

lemma grow_inv:
  assumes "table_inv h t"
  shows "table_inv h (grow t)"
proof -
  let ?g = "global_depth t"
  note len = table_invD(1)[OF assms]
  have "slot_ok h (grow t) i" if i: "i < 2 * 2 ^ ?g" for i
  proof -
    let ?i = "take_bit ?g i"
    let ?b = "bucket_at t ?i"
    have i': "?i < 2 ^ ?g" by simp
    note s = slot_okD[OF table_invD(3)[OF assms i']]
    have d: "depth_b ?b \<le> ?g" using s(2) .
    have b: "bucket_at (grow t) i = ?b" by (rule grow_bucket_at[OF len i])
    have n: "dir (grow t) ! i = dir t ! ?i" by (rule grow_nth[OF len i])
    have tb: "take_bit (depth_b ?b) ?i = take_bit (depth_b ?b) i"
      using d by (rule take_bit_inner)
    have nj: "dir (grow t) ! j = dir t ! take_bit ?g j" and tj: "take_bit ?g j < length (dir t)"
      and tbj: "take_bit (depth_b ?b) (take_bit ?g j) = take_bit (depth_b ?b) j"
      if "j < length (dir (grow t))" for j
      using that len d grow_nth[OF len, of j] by (simp_all add: grow_fields take_bit_inner)
    show ?thesis
    proof (rule slot_okI; (unfold b n)?)
      show "dir t ! ?i < length (heap (grow t))" using s(1) by (simp add: grow_fields)
      show "depth_b ?b \<le> global_depth (grow t)" using d by (simp add: grow_fields)
      show "size_b ?b = bucket_size (grow t)" using s(3) by (simp add: grow_fields)
      show "length (list_b ?b) \<le> bucket_size (grow t)" using s(4) by (simp add: grow_fields)
      show "distinct (map fst (list_b ?b))" using s(5) .
      show "take_bit (depth_b ?b) (h (fst it)) = take_bit (depth_b ?b) i"
        if "it \<in> set (list_b ?b)" for it using s(6)[OF that] tb by simp
      show "dir (grow t) ! j = dir t ! ?i"
        if "j < length (dir (grow t))" "take_bit (depth_b ?b) j = take_bit (depth_b ?b) i" for j
        using s(7)[OF tj[OF that(1)]] nj[OF that(1)] tbj[OF that(1)] that(2) tb by simp
      show "take_bit (depth_b ?b) j = take_bit (depth_b ?b) i"
        if "j < length (dir (grow t))" "dir (grow t) ! j = dir t ! ?i" for j
        using s(8)[OF tj[OF that(1)]] nj[OF that(1)] tbj[OF that(1)] that(2) tb by simp
    qed
  qed
  then show ?thesis using len by (simp add: table_inv_def grow_fields)
qed

lemma grow_Find:
  assumes "length (dir t) = 2 ^ global_depth t"
  shows "Table_Find h key (grow t) = Table_Find h key t"
proof -
  have "take_bit (global_depth t + 1) (h key) < 2 * 2 ^ global_depth t"
    using take_bit_nat_less_exp[of "global_depth t + 1" "h key"] by simp
  from grow_nth[OF assms this] show ?thesis
    by (simp add: Table_Find_def IndexOf_take_bit grow_fields Let_def)
qed

lemma split_bucket_eq:
  assumes "distinct (map fst (list_b (heap t ! origin)))"
    and "length (list_b (heap t ! origin)) \<le> bucket_size t"
  shows "split_bucket h origin t =
     t\<lparr>heap := heap t @ [split0 h (bucket_size t) (heap t ! origin),
                           split1 h (bucket_size t) (heap t ! origin)],
       num_buckets := num_buckets t + 1,
       dir := rewire origin (push_bit (depth_b (heap t ! origin)) 1)
                (length (heap t)) (length (heap t) + 1) (dir t)\<rparr>"
  by (simp add: split_bucket_def Let_def redistribute_empty[OF assms] split0_def split1_def)

lemma split_bucket_fields:
  assumes "distinct (map fst (list_b (heap t ! origin)))"
    and "length (list_b (heap t ! origin)) \<le> bucket_size t"
  shows "global_depth (split_bucket h origin t) = global_depth t"
    and "bucket_size (split_bucket h origin t) = bucket_size t"
    and "num_buckets (split_bucket h origin t) = num_buckets t + 1"
    and "length (dir (split_bucket h origin t)) = length (dir t)"
    and "heap (split_bucket h origin t) =
           heap t @ [split0 h (bucket_size t) (heap t ! origin),
                     split1 h (bucket_size t) (heap t ! origin)]"
    and "i < length (dir t) \<Longrightarrow> dir (split_bucket h origin t) ! i =
           (if dir t ! i = origin
            then (if bit i (depth_b (heap t ! origin)) then length (heap t) + 1 else length (heap t))
            else dir t ! i)"
  by (simp_all add: split_bucket_eq[OF assms] rewire_length rewire_nth)

lemma split_bucket_at:
  assumes "distinct (map fst (list_b (heap t ! origin)))"
    and "length (list_b (heap t ! origin)) \<le> bucket_size t"
    and "i < length (dir t)" "dir t ! i < length (heap t)"
  shows "bucket_at (split_bucket h origin t) i =
           (if dir t ! i = origin
            then (if bit i (depth_b (heap t ! origin))
                  then split1 h (bucket_size t) (heap t ! origin)
                  else split0 h (bucket_size t) (heap t ! origin))
            else bucket_at t i)"
  using assms(3,4)
  by (simp add: bucket_at_def split_bucket_fields[OF assms(1,2)] nth_append)

lemma split_bucket_inv:
  assumes inv: "table_inv h t" and i0: "i0 < length (dir t)" and o: "origin = dir t ! i0"
    and d: "depth_b (heap t ! origin) < global_depth t"
  shows "table_inv h (split_bucket h origin t)"
proof -
  let ?t = "split_bucket h origin t"
  let ?ob = "heap t ! origin"
  let ?d = "depth_b ?ob"
  note len = table_invD(1)[OF inv]
  note ok = table_invD(2)[OF inv]
  have ob: "bucket_at t i0 = ?ob" using o by (simp add: bucket_at_def)
  have dis: "distinct (map fst (list_b ?ob))" and le: "length (list_b ?ob) \<le> bucket_size t"
    using slot_okD(4,5)[OF ok[OF i0]] ob by simp_all
  note f = split_bucket_fields[OF dis le, where h = h]
  have "slot_ok h ?t i" if i: "i < length (dir t)" for i
  proof -
    note s = slot_okD[OF ok[OF i]]
    note b = split_bucket_at[OF dis le i s(1), where h = h]
    have old: "dir t ! j < length (heap t)" if "j < length (dir t)" for j
      using slot_okD(1)[OF ok[OF that]] .
    show ?thesis
    proof (cases "dir t ! i = origin")
      case False
      have n: "dir ?t ! i = dir t ! i" using f(6)[OF i] False by simp
      have B: "bucket_at ?t i = bucket_at t i" using b False by simp
      show ?thesis
      proof (rule slot_okI; (unfold B n)?)
        show "dir t ! i < length (heap ?t)" using s(1) by (simp add: f(5))
        show "depth_b (bucket_at t i) \<le> global_depth ?t" using s(2) by (simp add: f(1))
        show "size_b (bucket_at t i) = bucket_size ?t" using s(3) by (simp add: f(2))
        show "length (list_b (bucket_at t i)) \<le> bucket_size ?t" using s(4) by (simp add: f(2))
        show "distinct (map fst (list_b (bucket_at t i)))" using s(5) .
        show "take_bit (depth_b (bucket_at t i)) (h (fst it)) = take_bit (depth_b (bucket_at t i)) i"
          if "it \<in> set (list_b (bucket_at t i))" for it using s(6)[OF that] .
        show "dir ?t ! j = dir t ! i"
          if "j < length (dir ?t)"
            "take_bit (depth_b (bucket_at t i)) j = take_bit (depth_b (bucket_at t i)) i" for j
        proof -
          have j: "j < length (dir t)" using that(1) by (simp add: f(4))
          have "dir t ! j = dir t ! i" using s(7)[OF j that(2)] .
          then show ?thesis using f(6)[OF j] False by simp
        qed
        show "take_bit (depth_b (bucket_at t i)) j = take_bit (depth_b (bucket_at t i)) i"
          if "j < length (dir ?t)" "dir ?t ! j = dir t ! i" for j
        proof -
          have j: "j < length (dir t)" using that(1) by (simp add: f(4))
          have "dir t ! j = dir t ! i"
            using f(6)[OF j] that(2) s(1) by (auto split: if_splits)
          then show ?thesis using s(8)[OF j] by simp
        qed
      qed
    next
      case True
      then have bi: "bucket_at t i = ?ob" by (simp add: bucket_at_def)
      let ?B = "if bit i ?d then split1 h (bucket_size t) ?ob else split0 h (bucket_size t) ?ob"
      have B: "bucket_at ?t i = ?B" using b True by simp
      have dB: "depth_b ?B = Suc ?d" by (simp add: split0_def split1_def)
      have n: "dir ?t ! i = (if bit i ?d then length (heap t) + 1 else length (heap t))"
        using f(6)[OF i] True by simp
      show ?thesis
      proof (rule slot_okI; (unfold B dB)?)
        show "dir ?t ! i < length (heap ?t)" using n by (simp add: f(5))
        show "Suc ?d \<le> global_depth ?t" using d by (simp add: f(1))
        show "size_b ?B = bucket_size ?t" by (simp add: f(2) split0_def split1_def)
        show "length (list_b ?B) \<le> bucket_size ?t"
          using le le_trans[OF length_filter_le le] by (simp add: f(2) split0_def split1_def)
        show "distinct (map fst (list_b ?B))"
          using dis by (simp add: split0_def split1_def distinct_map_filter)
        show "take_bit (Suc ?d) (h (fst it)) = take_bit (Suc ?d) i"
          if "it \<in> set (list_b ?B)" for it
        proof -
          have m: "it \<in> set (list_b ?ob)" and bt: "bit (h (fst it)) ?d = bit i ?d"
            using that by (auto simp: split0_def split1_def split: if_splits)
          have "take_bit ?d (h (fst it)) = take_bit ?d i" using s(6)[of it] m bi by simp
          then show ?thesis using bt by (simp only: take_bit_eq_Suc)
        qed
        show "dir ?t ! j = dir ?t ! i"
          if j: "j < length (dir ?t)" and e: "take_bit (Suc ?d) j = take_bit (Suc ?d) i" for j
        proof -
          have j': "j < length (dir t)" using j by (simp add: f(4))
          have e1: "take_bit ?d j = take_bit ?d i" and e2: "bit j ?d = bit i ?d"
            using e by (simp_all only: take_bit_eq_Suc)
          have "dir t ! j = origin" using s(7)[OF j'] e1 bi True by simp
          then show ?thesis using f(6)[OF j'] n e2 by simp
        qed
        show "take_bit (Suc ?d) j = take_bit (Suc ?d) i"
          if j: "j < length (dir ?t)" and e: "dir ?t ! j = dir ?t ! i" for j
        proof -
          have j': "j < length (dir t)" using j by (simp add: f(4))
          have "dir t ! j = origin \<and> bit j ?d = bit i ?d"
            using f(6)[OF j'] n e old[OF j'] by (auto split: if_splits)
          then have "take_bit ?d j = take_bit ?d i" and "bit j ?d = bit i ?d"
            using s(8)[OF j'] True bi by simp_all
          then show ?thesis by (simp only: take_bit_eq_Suc)
        qed
      qed
    qed
  qed
  then show ?thesis using len by (simp add: table_inv_def f(1,4))
qed

lemma find_filter_key:
  assumes "\<And>it. fst it = key \<Longrightarrow> P it"
  shows "find (\<lambda>it. fst it = key) (filter P xs) = find (\<lambda>it. fst it = key) xs"
  using assms by (induction xs) auto

lemma split_bucket_Find:
  assumes inv: "table_inv h t" and i0: "i0 < length (dir t)" and o: "origin = dir t ! i0"
    and d: "depth_b (heap t ! origin) < global_depth t"
  shows "Table_Find h key (split_bucket h origin t) = Table_Find h key t"
proof -
  let ?t = "split_bucket h origin t"
  let ?ob = "heap t ! origin"
  let ?d = "depth_b ?ob"
  let ?i = "take_bit (global_depth t) (h key)"
  note len = table_invD(1)[OF inv]
  note ok = table_invD(2)[OF inv]
  have ob: "bucket_at t i0 = ?ob" using o by (simp add: bucket_at_def)
  have dis: "distinct (map fst (list_b ?ob))" and le: "length (list_b ?ob) \<le> bucket_size t"
    using slot_okD(4,5)[OF ok[OF i0]] ob by simp_all
  note f = split_bucket_fields[OF dis le, where h = h]
  have i: "?i < length (dir t)" using len by simp
  have a: "dir t ! ?i < length (heap t)" using slot_okD(1)[OF ok[OF i]] .
  note b = split_bucket_at[OF dis le i a, where h = h]
  have F: "Table_Find h key ?t = Bucket_Find key (bucket_at ?t ?i)"
    and F': "Table_Find h key t = Bucket_Find key (bucket_at t ?i)"
    by (simp_all add: Table_Find_def IndexOf_take_bit bucket_at_def f(1))
  show ?thesis
  proof (cases "dir t ! ?i = origin")
    case False
    then show ?thesis using b F F' by simp
  next
    case True
    then have bi: "bucket_at t ?i = ?ob" by (simp add: bucket_at_def)
    have bt: "bit ?i ?d = bit (h key) ?d" using d by (rule bit_take_bit_less)
    have "Bucket_Find key (bucket_at ?t ?i) = Bucket_Find key ?ob"
      using b True bt
      by (auto simp: Bucket_Find_def split0_def split1_def intro!: arg_cong[where f="map_option snd"] find_filter_key)
    then show ?thesis using F F' bi by simp
  qed
qed

lemma entries_sum: "entries t = (\<Sum>a\<in>set (dir t). mset (list_b (heap t ! a)))"
proof -
  have "entries t = sum_list (map (\<lambda>a. mset (list_b (heap t ! a))) (remdups (dir t)))"
    by (simp add: entries_def mset_concat comp_def)
  also have "\<dots> = (\<Sum>a\<in>set (remdups (dir t)). mset (list_b (heap t ! a)))"
    by (rule sum.distinct_set_conv_list[symmetric]) simp
  finally show ?thesis by simp
qed

lemma split_step_ex:
  assumes inv: "table_inv h t"
  shows "\<exists>t1 i0. split_step h key t = split_bucket h (dir t1 ! i0) t1 \<and>
     table_inv h t1 \<and> i0 < length (dir t1) \<and>
     depth_b (heap t1 ! (dir t1 ! i0)) < global_depth t1 \<and>
     (\<forall>key'. Table_Find h key' t1 = Table_Find h key' t) \<and>
     bucket_size t1 = bucket_size t \<and> heap t1 = heap t \<and>
     dir t1 ! i0 = dir t ! IndexOf h t key \<and>
     i0 = IndexOf h t key \<and>
     global_depth t1 = (if depth_b (heap t ! (dir t ! IndexOf h t key)) = global_depth t
                        then global_depth t + 1 else global_depth t) \<and>
     num_buckets t1 = num_buckets t \<and>
     entries t1 = entries t"
proof -
  let ?i = "IndexOf h t key"
  have len: "length (dir t) = 2 ^ global_depth t" using inv by (simp add: table_inv_def)
  have i: "?i < length (dir t)" using len by (rule IndexOf_less)
  have dle: "depth_b (heap t ! (dir t ! ?i)) \<le> global_depth t"
    using slot_okD(2)[OF IndexOf_slot_ok(1)[OF inv], of key] by (simp add: bucket_at_def)
  show ?thesis
  proof (cases "depth_b (heap t ! (dir t ! ?i)) = global_depth t")
    case True
    have n: "dir (grow t) ! ?i = dir t ! ?i"
      using grow_nth[OF len, of ?i] i len by (simp add: take_bit_nat_eq_self)
    have 1: "split_step h key t = split_bucket h (dir (grow t) ! ?i) (grow t)"
      using True n by (simp add: split_step_def Let_def)
    have 2: "table_inv h (grow t)" using inv by (rule grow_inv)
    have 3: "?i < length (dir (grow t))" using i by (simp add: grow_fields)
    have 4: "depth_b (heap (grow t) ! (dir (grow t) ! ?i)) < global_depth (grow t)"
      using True n by (simp add: grow_fields)
    have 5: "\<forall>key'. Table_Find h key' (grow t) = Table_Find h key' t"
      using grow_Find[OF len] by blast
    have 6: "global_depth (grow t) = (if depth_b (heap t ! (dir t ! ?i)) = global_depth t
                        then global_depth t + 1 else global_depth t)"
      using True by (simp add: grow_fields)
    have 7: "entries (grow t) = entries t" by (simp add: entries_sum grow_def)
    have 8: "bucket_size (grow t) = bucket_size t" "heap (grow t) = heap t"
      "num_buckets (grow t) = num_buckets t" "?i = ?i"
      by (simp_all add: grow_fields)
    show ?thesis
      by (rule exI[of _ "grow t"], rule exI[of _ ?i], intro conjI) (fact 1 2 3 4 5 6 7 8 n)+
  next
    case False
    have 1: "split_step h key t = split_bucket h (dir t ! ?i) t"
      using False by (simp add: split_step_def Let_def)
    have 4: "depth_b (heap t ! (dir t ! ?i)) < global_depth t" using False dle by simp
    have 5: "\<forall>key'. Table_Find h key' t = Table_Find h key' t" by simp
    have 6: "global_depth t = (if depth_b (heap t ! (dir t ! ?i)) = global_depth t
                        then global_depth t + 1 else global_depth t)"
      using False by simp
    show ?thesis
      by (rule exI[of _ t], rule exI[of _ ?i], intro conjI) (fact 1 4 5 6 inv i refl)+
  qed
qed

lemma split_step_inv:
  assumes "table_inv h t"
  shows "table_inv h (split_step h key t)"
proof -
  from split_step_ex[OF assms, of key]
  obtain t1 i0 where "split_step h key t = split_bucket h (dir t1 ! i0) t1"
    "table_inv h t1" "i0 < length (dir t1)" "depth_b (heap t1 ! (dir t1 ! i0)) < global_depth t1"
    by blast
  then show ?thesis using split_bucket_inv[of h t1 i0 "dir t1 ! i0"] by simp
qed

lemma split_step_Find:
  assumes "table_inv h t"
  shows "Table_Find h key' (split_step h key t) = Table_Find h key' t"
proof -
  from split_step_ex[OF assms, of key]
  obtain t1 i0 where "split_step h key t = split_bucket h (dir t1 ! i0) t1"
    "table_inv h t1" "i0 < length (dir t1)" "depth_b (heap t1 ! (dir t1 ! i0)) < global_depth t1"
    "\<forall>key'. Table_Find h key' t1 = Table_Find h key' t"
    by blast
  then show ?thesis using split_bucket_Find[of h t1 i0 "dir t1 ! i0" key'] by simp
qed

lemma split_step_bucket_size:
  assumes "table_inv h t"
  shows "bucket_size (split_step h key t) = bucket_size t"
proof -
  from split_step_ex[OF assms, of key]
  obtain t1 i0 where *: "split_step h key t = split_bucket h (dir t1 ! i0) t1"
    "table_inv h t1" "i0 < length (dir t1)" "bucket_size t1 = bucket_size t"
    by blast
  then have "slot_ok h t1 i0" by (simp add: table_invD)
  then have "distinct (map fst (list_b (heap t1 ! (dir t1 ! i0))))"
    and "length (list_b (heap t1 ! (dir t1 ! i0))) \<le> bucket_size t1"
    using slot_okD(4,5)[of h t1 i0] by (simp_all add: bucket_at_def)
  from split_bucket_fields(2)[OF this] * show ?thesis by simp
qed

lemma split_loop_induct [consumes 1, case_names stop step]:
  assumes "split_loop h key t = Some t'"
    and "\<And>t. \<not> IsFull (heap t ! (dir t ! IndexOf h t key)) \<Longrightarrow> P t t"
    and "\<And>t t'. IsFull (heap t ! (dir t ! IndexOf h t key)) \<Longrightarrow>
           P (split_step h key t) t' \<Longrightarrow> P t t'"
  shows "P t t'"
proof -
  have "h' = h \<longrightarrow> key' = key \<longrightarrow> P t t'" if "split_loop h' key' t = Some t'" for h' key'
  proof (rule split_loop.raw_induct[where P = "\<lambda>h' key' t t'. h' = h \<longrightarrow> key' = key \<longrightarrow> P t t'", OF _ that])
    fix f h' key' t t'
    assume IH: "\<And>h' key' t t'. f h' key' t = Some t' \<Longrightarrow> h' = h \<longrightarrow> key' = key \<longrightarrow> P t t'"
      and eq: "(if IsFull (heap t ! (dir t ! IndexOf h' t key'))
                then f h' key' (split_step h' key' t) else Some t) = Some t'"
    show "h' = h \<longrightarrow> key' = key \<longrightarrow> P t t'"
    proof (intro impI)
      assume e: "h' = h" "key' = key"
      show "P t t'"
      proof (cases "IsFull (heap t ! (dir t ! IndexOf h t key))")
        case True
        then have "f h key (split_step h key t) = Some t'" using eq e by simp
        from IH[OF this] have "P (split_step h key t) t'" by simp
        then show ?thesis using True assms(3) by blast
      next
        case False
        then have "t' = t" using eq e by simp
        then show ?thesis using assms(2)[OF False] by simp
      qed
    qed
  qed
  then show ?thesis using assms(1) by blast
qed

lemma split_loop_inv:
  assumes "split_loop h key t = Some t'" "table_inv h t"
  shows "table_inv h t' \<and> (\<forall>key'. Table_Find h key' t' = Table_Find h key' t) \<and>
     \<not> IsFull (heap t' ! (dir t' ! IndexOf h t' key)) \<and> bucket_size t' = bucket_size t"
  using assms
proof (induction rule: split_loop_induct)
  case (stop t)
  then show ?case by simp
next
  case (step t t')
  have "table_inv h (split_step h key t)" using step.prems by (rule split_step_inv)
  from step.IH[OF this] show ?case
    using split_step_Find[OF step.prems] split_step_bucket_size[OF step.prems] by simp
qed

lemma Bucket_Find_map_of: "Bucket_Find key b = map_of (list_b b) key"
proof -
  have "map_option snd (find (\<lambda>it. fst it = key) xs) = map_of xs key" for xs :: "('b \<times> 'c) list"
    by (induction xs) auto
  then show ?thesis by (simp add: Bucket_Find_def)
qed

lemma find_key_None: "find (\<lambda>it. fst it = key) xs = None \<longleftrightarrow> key \<notin> fst ` set xs"
  by (force simp: find_None_iff)

lemma find_key_None': "find (\<lambda>it. key = fst it) xs = None \<longleftrightarrow> key \<notin> fst ` set xs"
  by (force simp: find_None_iff)

lemma assign_first_keys: "map fst (assign_first key v xs) = map fst xs"
  by (induction xs) auto

lemma assign_first_length: "length (assign_first key v xs) = length xs"
  by (induction xs) auto

lemma assign_first_map_of:
  "key \<in> fst ` set xs \<Longrightarrow> map_of (assign_first key v xs) = (map_of xs)(key \<mapsto> v)"
proof (induction xs)
  case Nil
  then show ?case by simp
next
  case (Cons it xs)
  show ?case
  proof (cases "fst it = key")
    case True
    then show ?thesis by (cases it) (auto simp: fun_eq_iff)
  next
    case False
    then have "key \<in> fst ` set xs" using Cons.prems by auto
    from Cons.IH[OF this] False show ?thesis by (cases it) (auto simp: fun_eq_iff)
  qed
qed

lemma assign_first_mset:
  "distinct (map fst xs) \<Longrightarrow> key \<in> fst ` set xs \<Longrightarrow>
     mset (assign_first key v xs) = filter_mset (\<lambda>e. fst e \<noteq> key) (mset xs) + {#(key, v)#}"
proof (induction xs)
  case Nil
  then show ?case by simp
next
  case (Cons it xs)
  show ?case
  proof (cases "fst it = key")
    case True
    then have "key \<notin> fst ` set xs" using Cons.prems(1) by auto
    then have "filter_mset (\<lambda>e. fst e \<noteq> key) (mset xs) = mset xs"
      by (intro filter_mset_cong[where g = "\<lambda>_. True", simplified]) auto
    then show ?thesis using True by simp
  next
    case False
    then show ?thesis using Cons by auto
  qed
qed

lemma append_entry_mset:
  "key \<notin> fst ` set xs \<Longrightarrow>
     mset (xs @ [(key, v)]) = filter_mset (\<lambda>e. fst e \<noteq> key) (mset xs) + {#(key, v)#}"
proof -
  assume "key \<notin> fst ` set xs"
  then have "filter_mset (\<lambda>e. fst e \<noteq> key) (mset xs) = mset xs"
    by (intro filter_mset_cong[where g = "\<lambda>_. True", simplified]) auto
  then show ?thesis by simp
qed

lemma removeAll_entry:
  assumes "distinct (map fst xs)" "find (\<lambda>it. fst it = key) xs = Some it"
  shows "map_of (removeAll it xs) = (map_of xs)(key := None)"
    and "mset (removeAll it xs) = filter_mset (\<lambda>e. fst e \<noteq> key) (mset xs)"
    and "fst it = key"
proof -
  show k: "fst it = key" using assms(2) by (auto simp: find_Some_iff)
  have m: "it \<in> set xs" using assms(2) by (auto simp: find_Some_iff)
  have eq: "e = it \<longleftrightarrow> fst e = key" if "e \<in> set xs" for e
    using that m k assms(1) by (metis eq_key_imp_eq_value prod.collapse)
  have r: "removeAll it xs = filter (\<lambda>e. fst e \<noteq> key) xs"
    unfolding removeAll_filter_not_eq using eq by (intro filter_cong) auto
  show "mset (removeAll it xs) = filter_mset (\<lambda>e. fst e \<noteq> key) (mset xs)"
    by (simp add: r)
  have "map_of (filter (\<lambda>e. fst e \<noteq> key) xs) key' = ((map_of xs)(key := None)) key'" for key'
    by (induction xs) auto
  then show "map_of (removeAll it xs) = (map_of xs)(key := None)"
    by (simp add: r fun_eq_iff)
qed

lemma Table_Find_bucket_at:
  "Table_Find h key t = map_of (list_b (bucket_at t (IndexOf h t key))) key"
  by (simp add: Table_Find_def Let_def Bucket_Find_map_of bucket_at_def)

text \<open>A key is only in the bucket its directory slot points to.\<close>

lemma key_bucket:
  assumes inv: "table_inv h t" and i: "i < length (dir t)"
    and m: "it \<in> set (list_b (bucket_at t i))"
  shows "dir t ! IndexOf h t (fst it) = dir t ! i"
proof -
  note s = slot_okD[OF table_invD(2)[OF inv i]]
  have "take_bit (depth_b (bucket_at t i)) (IndexOf h t (fst it)) =
        take_bit (depth_b (bucket_at t i)) (h (fst it))"
    using s(2) by (simp add: IndexOf_take_bit take_bit_inner)
  then have "take_bit (depth_b (bucket_at t i)) (IndexOf h t (fst it)) =
        take_bit (depth_b (bucket_at t i)) i"
    using s(6)[OF m] by simp
  then show ?thesis using s(7)[OF IndexOf_slot_ok(2)[OF inv]] by simp
qed

lemma update_bucket_at:
  assumes "table_inv h t" "i0 < length (dir t)" "i < length (dir t)"
  shows "bucket_at (t\<lparr>heap := (heap t)[dir t ! i0 := b']\<rparr>) i =
           (if dir t ! i = dir t ! i0 then b' else bucket_at t i)"
  using slot_okD(1)[OF table_invD(2)[OF assms(1,2)]]
  by (simp add: bucket_at_def nth_list_update)

lemma update_bucket_inv:
  assumes inv: "table_inv h t" and i0: "i0 < length (dir t)"
    and d': "depth_b b' = depth_b (bucket_at t i0)"
    and s': "size_b b' = bucket_size t"
    and l': "length (list_b b') \<le> bucket_size t"
    and dis': "distinct (map fst (list_b b'))"
    and k': "\<And>it. it \<in> set (list_b b') \<Longrightarrow>
               take_bit (depth_b b') (h (fst it)) = take_bit (depth_b b') i0"
  shows "table_inv h (t\<lparr>heap := (heap t)[dir t ! i0 := b']\<rparr>)"
proof -
  let ?t = "t\<lparr>heap := (heap t)[dir t ! i0 := b']\<rparr>"
  note len = table_invD(1)[OF inv]
  have "slot_ok h ?t i" if i: "i < length (dir t)" for i
  proof -
    note s = slot_okD[OF table_invD(2)[OF inv i]]
    note s0 = slot_okD[OF table_invD(2)[OF inv i0]]
    note b = update_bucket_at[OF inv i0 i, of b']
    show ?thesis
    proof (cases "dir t ! i = dir t ! i0")
      case True
      then have B: "bucket_at ?t i = b'" using b by simp
      have bb: "bucket_at t i = bucket_at t i0" using True by (simp add: bucket_at_def)
      have tb: "take_bit (depth_b b') i = take_bit (depth_b b') i0"
        using s0(8)[OF i True] d' by simp
      show ?thesis
      proof (rule slot_okI; (unfold B)?)
        show "dir ?t ! i < length (heap ?t)" using s(1) by simp
        show "depth_b b' \<le> global_depth ?t" using s0(2) d' by simp
        show "size_b b' = bucket_size ?t" using s' by simp
        show "length (list_b b') \<le> bucket_size ?t" using l' by simp
        show "distinct (map fst (list_b b'))" using dis' .
        show "take_bit (depth_b b') (h (fst it)) = take_bit (depth_b b') i"
          if "it \<in> set (list_b b')" for it using k'[OF that] tb by simp
        show "dir ?t ! j = dir ?t ! i"
          if "j < length (dir ?t)" "take_bit (depth_b b') j = take_bit (depth_b b') i" for j
          using s(7)[of j] that d' bb by simp
        show "take_bit (depth_b b') j = take_bit (depth_b b') i"
          if "j < length (dir ?t)" "dir ?t ! j = dir ?t ! i" for j
          using s(8)[of j] that d' bb by simp
      qed
    next
      case False
      then have B: "bucket_at ?t i = bucket_at t i" using b by simp
      show ?thesis
      proof (rule slot_okI; (unfold B)?)
        show "dir ?t ! i < length (heap ?t)" using s(1) by simp
        show "depth_b (bucket_at t i) \<le> global_depth ?t" using s(2) by simp
        show "size_b (bucket_at t i) = bucket_size ?t" using s(3) by simp
        show "length (list_b (bucket_at t i)) \<le> bucket_size ?t" using s(4) by simp
        show "distinct (map fst (list_b (bucket_at t i)))" using s(5) .
        show "take_bit (depth_b (bucket_at t i)) (h (fst it)) = take_bit (depth_b (bucket_at t i)) i"
          if "it \<in> set (list_b (bucket_at t i))" for it using s(6)[OF that] .
        show "dir ?t ! j = dir ?t ! i"
          if "j < length (dir ?t)"
            "take_bit (depth_b (bucket_at t i)) j = take_bit (depth_b (bucket_at t i)) i" for j
          using s(7)[of j] that by simp
        show "take_bit (depth_b (bucket_at t i)) j = take_bit (depth_b (bucket_at t i)) i"
          if "j < length (dir ?t)" "dir ?t ! j = dir ?t ! i" for j
          using s(8)[of j] that by simp
      qed
    qed
  qed
  then show ?thesis using len by (simp add: table_inv_def)
qed

lemma update_bucket_Find:
  assumes inv: "table_inv h t" and i0: "i0 < length (dir t)"
  shows "Table_Find h key' (t\<lparr>heap := (heap t)[dir t ! i0 := b']\<rparr>) =
           (if dir t ! IndexOf h t key' = dir t ! i0 then map_of (list_b b') key'
            else Table_Find h key' t)"
proof -
  let ?t = "t\<lparr>heap := (heap t)[dir t ! i0 := b']\<rparr>"
  have i: "IndexOf h ?t key' = IndexOf h t key'" by (simp add: IndexOf_def)
  show ?thesis
    unfolding Table_Find_bucket_at i
    using update_bucket_at[OF inv i0 IndexOf_slot_ok(2)[OF inv, of key'], of b'] by simp
qed

lemma update_bucket_entries:
  assumes inv: "table_inv h t" and i0: "i0 < length (dir t)"
  shows "entries (t\<lparr>heap := (heap t)[dir t ! i0 := b']\<rparr>) + mset (list_b (bucket_at t i0)) =
           entries t + mset (list_b b')"
proof -
  let ?a = "dir t ! i0"
  have a: "?a \<in> set (dir t)" using i0 by simp
  have lt: "?a < length (heap t)" using slot_okD(1)[OF table_invD(2)[OF inv i0]] .
  have fin: "finite (set (dir t))" by simp
  have "entries (t\<lparr>heap := (heap t)[?a := b']\<rparr>) =
          (\<Sum>x\<in>set (dir t). mset (list_b ((heap t)[?a := b'] ! x)))"
    by (simp add: entries_sum)
  also have "\<dots> = mset (list_b b') + (\<Sum>x\<in>set (dir t) - {?a}. mset (list_b ((heap t)[?a := b'] ! x)))"
    using lt by (subst sum.remove[OF fin a]) simp
  also have "(\<Sum>x\<in>set (dir t) - {?a}. mset (list_b ((heap t)[?a := b'] ! x))) =
             (\<Sum>x\<in>set (dir t) - {?a}. mset (list_b (heap t ! x)))"
    by (intro sum.cong) auto
  finally have 1: "entries (t\<lparr>heap := (heap t)[?a := b']\<rparr>) =
      mset (list_b b') + (\<Sum>x\<in>set (dir t) - {?a}. mset (list_b (heap t ! x)))" .
  have 2: "entries t = mset (list_b (heap t ! ?a)) + (\<Sum>x\<in>set (dir t) - {?a}. mset (list_b (heap t ! x)))"
    unfolding entries_sum by (subst sum.remove[OF fin a]) simp
  show ?thesis unfolding 1 2 by (simp add: bucket_at_def)
qed

lemma filter_mset_sum:
  "finite A \<Longrightarrow> filter_mset P (sum f A) = (\<Sum>x\<in>A. filter_mset P (f x))"
  by (induction rule: finite_induct) auto

lemma other_buckets_no_key:
  assumes inv: "table_inv h t" and i0: "i0 = IndexOf h t key"
  shows "filter_mset (\<lambda>e. fst e \<noteq> key) (entries t) + mset (list_b (bucket_at t i0)) =
         entries t + filter_mset (\<lambda>e. fst e \<noteq> key) (mset (list_b (bucket_at t i0)))"
proof -
  let ?a = "dir t ! i0"
  have i0': "i0 < length (dir t)" using i0 IndexOf_slot_ok(2)[OF inv] by simp
  have a: "?a \<in> set (dir t)" using i0' by simp
  have fin: "finite (set (dir t))" by simp
  have other: "filter_mset (\<lambda>e. fst e \<noteq> key) (mset (list_b (heap t ! x))) = mset (list_b (heap t ! x))"
    if "x \<in> set (dir t) - {?a}" for x
  proof -
    from that obtain i where i: "i < length (dir t)" "dir t ! i = x" by (auto simp: in_set_conv_nth)
    have "fst it \<noteq> key" if "it \<in> set (list_b (heap t ! x))" for it
    proof
      assume "fst it = key"
      moreover have "dir t ! IndexOf h t (fst it) = dir t ! i"
        using key_bucket[OF inv i(1), of it] that i(2) by (simp add: bucket_at_def)
      ultimately show False using \<open>x \<in> set (dir t) - {?a}\<close> i(2) i0 by simp
    qed
    then show ?thesis
      by (intro filter_mset_cong[where g = "\<lambda>_. True", simplified]) auto
  qed
  have "filter_mset (\<lambda>e. fst e \<noteq> key) (entries t) =
          (\<Sum>x\<in>set (dir t). filter_mset (\<lambda>e. fst e \<noteq> key) (mset (list_b (heap t ! x))))"
    unfolding entries_sum by (rule filter_mset_sum) simp
  also have "\<dots> = filter_mset (\<lambda>e. fst e \<noteq> key) (mset (list_b (heap t ! ?a))) +
      (\<Sum>x\<in>set (dir t) - {?a}. filter_mset (\<lambda>e. fst e \<noteq> key) (mset (list_b (heap t ! x))))"
    by (subst sum.remove[OF fin a]) simp
  also have "(\<Sum>x\<in>set (dir t) - {?a}. filter_mset (\<lambda>e. fst e \<noteq> key) (mset (list_b (heap t ! x)))) =
      (\<Sum>x\<in>set (dir t) - {?a}. mset (list_b (heap t ! x)))"
    using other by (intro sum.cong) auto
  finally have 1: "filter_mset (\<lambda>e. fst e \<noteq> key) (entries t) =
      filter_mset (\<lambda>e. fst e \<noteq> key) (mset (list_b (heap t ! ?a))) +
      (\<Sum>x\<in>set (dir t) - {?a}. mset (list_b (heap t ! x)))" .
  have 2: "entries t = mset (list_b (heap t ! ?a)) + (\<Sum>x\<in>set (dir t) - {?a}. mset (list_b (heap t ! x)))"
    unfolding entries_sum by (subst sum.remove[OF fin a]) simp
  have "filter_mset (\<lambda>e. fst e \<noteq> key) (entries t) + mset (list_b (heap t ! ?a)) =
        entries t + filter_mset (\<lambda>e. fst e \<noteq> key) (mset (list_b (heap t ! ?a)))"
    by (subst 1, subst 2) simp
  then show ?thesis by (simp add: bucket_at_def)
qed

lemma stored_props:
  assumes "distinct (map fst xs)"
  shows "map_of (stored key v xs) = (map_of xs)(key \<mapsto> v)"
    and "mset (stored key v xs) = filter_mset (\<lambda>e. fst e \<noteq> key) (mset xs) + {#(key, v)#}"
    and "distinct (map fst (stored key v xs))"
    and "fst ` set (stored key v xs) = insert key (fst ` set xs)"
    and "length (stored key v xs) = (if key \<in> fst ` set xs then length xs else length xs + 1)"
proof -
  show "map_of (stored key v xs) = (map_of xs)(key \<mapsto> v)"
  proof (cases "key \<in> fst ` set xs")
    case True
    then show ?thesis by (simp add: stored_def assign_first_map_of)
  next
    case False
    then have "map_of xs key = None" by (simp add: map_of_eq_None_iff)
    then show ?thesis using False
      by (auto simp: stored_def fun_eq_iff map_add_def split: option.splits)
  qed
  show "mset (stored key v xs) = filter_mset (\<lambda>e. fst e \<noteq> key) (mset xs) + {#(key, v)#}"
    using assms assign_first_mset[of xs key v] append_entry_mset[of key xs v]
    by (simp add: stored_def)
  show "distinct (map fst (stored key v xs))"
    using assms by (auto simp: stored_def assign_first_keys)
  have "fst ` set (assign_first key v xs) = fst ` set xs"
    using assign_first_keys[of key v xs] by (metis set_map)
  then show "fst ` set (stored key v xs) = insert key (fst ` set xs)"
    by (auto simp: stored_def)
  show "length (stored key v xs) = (if key \<in> fst ` set xs then length xs else length xs + 1)"
    by (simp add: stored_def assign_first_length)
qed

lemma removed_props:
  assumes "distinct (map fst xs)"
  shows "map_of (removed key xs) = (map_of xs)(key := None)"
    and "mset (removed key xs) = filter_mset (\<lambda>e. fst e \<noteq> key) (mset xs)"
    and "distinct (map fst (removed key xs))"
    and "set (removed key xs) \<subseteq> set xs"
    and "length (removed key xs) \<le> length xs"
proof -
  have r: "removed key xs = filter (\<lambda>e. fst e \<noteq> key) xs"
  proof (cases "find (\<lambda>it. fst it = key) xs")
    case None
    then have "key \<notin> fst ` set xs" by (simp add: find_key_None)
    then have "filter (\<lambda>e. fst e \<noteq> key) xs = xs" by (intro filter_True) auto
    then show ?thesis using None by (simp add: removed_def)
  next
    case (Some it)
    have "mset (removeAll it xs) = mset (filter (\<lambda>e. fst e \<noteq> key) xs)"
      using removeAll_entry(2)[OF assms Some] by simp
    have m: "it \<in> set xs" and k: "fst it = key" using Some by (auto simp: find_Some_iff)
    have eq: "e = it \<longleftrightarrow> fst e = key" if "e \<in> set xs" for e
      using that m k assms by (metis eq_key_imp_eq_value prod.collapse)
    have "removeAll it xs = filter (\<lambda>e. fst e \<noteq> key) xs"
      unfolding removeAll_filter_not_eq using eq by (intro filter_cong) auto
    then show ?thesis using Some by (simp add: removed_def)
  qed
  have "map_of (filter (\<lambda>e. fst e \<noteq> key) xs) key' = ((map_of xs)(key := None)) key'" for key'
    by (induction xs) auto
  then show "map_of (removed key xs) = (map_of xs)(key := None)" by (simp add: r fun_eq_iff)
  show "mset (removed key xs) = filter_mset (\<lambda>e. fst e \<noteq> key) (mset xs)" by (simp add: r)
  show "distinct (map fst (removed key xs))" using assms by (simp add: r distinct_map_filter)
  show "set (removed key xs) \<subseteq> set xs" by (auto simp: r)
  show "length (removed key xs) \<le> length xs" by (simp add: r)
qed

lemma store_entry_eq:
  assumes inv: "table_inv h t" and nf: "\<not> IsFull (heap t ! (dir t ! IndexOf h t key))"
  shows "store_entry h key v t =
     t\<lparr>heap := (heap t)[dir t ! IndexOf h t key :=
        (bucket_at t (IndexOf h t key))\<lparr>list_b := stored key v (list_b (bucket_at t (IndexOf h t key)))\<rparr>]\<rparr>"
proof -
  let ?b = "heap t ! (dir t ! IndexOf h t key)"
  note s = slot_okD[OF IndexOf_slot_ok(1)[OF inv, of key]]
  have lt: "length (list_b ?b) < size_b ?b"
    using nf s(3,4) by (simp add: IsFull_def bucket_at_def)
  show ?thesis
  proof (cases "key \<in> fst ` set (list_b ?b)")
    case True
    then show ?thesis
      by (simp add: store_entry_def Let_def find_key_None' stored_def bucket_at_def)
  next
    case False
    then show ?thesis
      using Bucket_Insert_fresh[OF lt False, of v]
      by (simp add: store_entry_def Let_def find_key_None' stored_def bucket_at_def)
  qed
qed

lemma Table_Remove_eq:
  "snd (Table_Remove h key t) =
     t\<lparr>heap := (heap t)[dir t ! IndexOf h t key :=
        (bucket_at t (IndexOf h t key))\<lparr>list_b := removed key (list_b (bucket_at t (IndexOf h t key)))\<rparr>]\<rparr>"
  and "fst (Table_Remove h key t) \<longleftrightarrow> Table_Find h key t \<noteq> None"
  by (auto simp: Table_Remove_def Let_def Bucket_Remove_def removed_def bucket_at_def
      Table_Find_def Bucket_Find_def split: option.splits)

lemma store_entry_props:
  assumes inv: "table_inv h t" and nf: "\<not> IsFull (heap t ! (dir t ! IndexOf h t key))"
  shows "table_inv h (store_entry h key v t)"
    and "Table_Find h key' (store_entry h key v t) =
           (if key' = key then Some v else Table_Find h key' t)"
    and "entries (store_entry h key v t) =
           filter_mset (\<lambda>e. fst e \<noteq> key) (entries t) + {#(key, v)#}"
    and "global_depth (store_entry h key v t) = global_depth t"
    and "num_buckets (store_entry h key v t) = num_buckets t"
    and "bucket_size (store_entry h key v t) = bucket_size t"
    and "dir (store_entry h key v t) = dir t"
proof -
  let ?i = "IndexOf h t key"
  let ?b = "bucket_at t ?i"
  let ?xs = "list_b ?b"
  let ?b' = "?b\<lparr>list_b := stored key v ?xs\<rparr>"
  note eq = store_entry_eq[OF inv nf, where v = v]
  note i = IndexOf_slot_ok(2)[OF inv, of key]
  note s = slot_okD[OF IndexOf_slot_ok(1)[OF inv, of key]]
  note st = stored_props[OF s(5), of key v]
  have lt: "length ?xs < bucket_size t"
    using nf s(3,4) by (simp add: IsFull_def bucket_at_def)
  have tk: "take_bit (depth_b ?b) (h key) = take_bit (depth_b ?b) ?i"
    using s(2) by (simp add: IndexOf_take_bit take_bit_inner)
  show "table_inv h (store_entry h key v t)"
    unfolding eq
  proof (rule update_bucket_inv[OF inv i])
    show "length (list_b ?b') \<le> bucket_size t" using lt st(5) by simp
    show "distinct (map fst (list_b ?b'))" using st(3) by simp
    show "take_bit (depth_b ?b') (h (fst it)) = take_bit (depth_b ?b') ?i"
      if "it \<in> set (list_b ?b')" for it
    proof -
      have "fst it \<in> insert key (fst ` set ?xs)" using that st(4) by auto
      then show ?thesis using tk s(6) by auto
    qed
  qed (use s(3) in simp_all)
  show "Table_Find h key' (store_entry h key v t) =
           (if key' = key then Some v else Table_Find h key' t)"
  proof (cases "dir t ! IndexOf h t key' = dir t ! ?i")
    case True
    then have "bucket_at t (IndexOf h t key') = ?b" by (simp add: bucket_at_def)
    then show ?thesis
      unfolding eq update_bucket_Find[OF inv i] using True st(1)
      by (simp add: Table_Find_bucket_at)
  next
    case False
    then have "key' \<noteq> key" by auto
    then show ?thesis unfolding eq update_bucket_Find[OF inv i] using False by simp
  qed
  have "entries (store_entry h key v t) + mset ?xs = entries t + mset (stored key v ?xs)"
    unfolding eq using update_bucket_entries[OF inv i, of ?b'] by simp
  also have "\<dots> = (entries t + filter_mset (\<lambda>e. fst e \<noteq> key) (mset ?xs)) + {#(key, v)#}"
    by (simp add: st(2))
  also have "\<dots> = (filter_mset (\<lambda>e. fst e \<noteq> key) (entries t) + mset ?xs) + {#(key, v)#}"
    using other_buckets_no_key[OF inv refl, of key] by simp
  finally show "entries (store_entry h key v t) =
           filter_mset (\<lambda>e. fst e \<noteq> key) (entries t) + {#(key, v)#}"
    by simp
  show "global_depth (store_entry h key v t) = global_depth t"
    and "num_buckets (store_entry h key v t) = num_buckets t"
    and "bucket_size (store_entry h key v t) = bucket_size t"
    and "dir (store_entry h key v t) = dir t"
    unfolding eq by simp_all
qed

lemma Table_Remove_props:
  assumes inv: "table_inv h t"
  shows "table_inv h (snd (Table_Remove h key t))"
    and "Table_Find h key' (snd (Table_Remove h key t)) =
           (if key' = key then None else Table_Find h key' t)"
    and "entries (snd (Table_Remove h key t)) = filter_mset (\<lambda>e. fst e \<noteq> key) (entries t)"
    and "global_depth (snd (Table_Remove h key t)) = global_depth t"
    and "num_buckets (snd (Table_Remove h key t)) = num_buckets t"
    and "bucket_size (snd (Table_Remove h key t)) = bucket_size t"
    and "dir (snd (Table_Remove h key t)) = dir t"
proof -
  let ?i = "IndexOf h t key"
  let ?b = "bucket_at t ?i"
  let ?xs = "list_b ?b"
  let ?b' = "?b\<lparr>list_b := removed key ?xs\<rparr>"
  note eq = Table_Remove_eq(1)[of h key t]
  note i = IndexOf_slot_ok(2)[OF inv, of key]
  note s = slot_okD[OF IndexOf_slot_ok(1)[OF inv, of key]]
  note rm = removed_props[OF s(5), of key]
  show "table_inv h (snd (Table_Remove h key t))"
    unfolding eq
  proof (rule update_bucket_inv[OF inv i])
    show "length (list_b ?b') \<le> bucket_size t" using rm(5) s(4) by simp
    show "distinct (map fst (list_b ?b'))" using rm(3) by simp
    show "take_bit (depth_b ?b') (h (fst it)) = take_bit (depth_b ?b') ?i"
      if "it \<in> set (list_b ?b')" for it
      using that rm(4) s(6)[of it] by auto
  qed (use s(3) in simp_all)
  show "Table_Find h key' (snd (Table_Remove h key t)) =
           (if key' = key then None else Table_Find h key' t)"
  proof (cases "dir t ! IndexOf h t key' = dir t ! ?i")
    case True
    then have "bucket_at t (IndexOf h t key') = ?b" by (simp add: bucket_at_def)
    then show ?thesis
      unfolding eq update_bucket_Find[OF inv i] using True rm(1)
      by (simp add: Table_Find_bucket_at)
  next
    case False
    then have "key' \<noteq> key" by auto
    then show ?thesis unfolding eq update_bucket_Find[OF inv i] using False by simp
  qed
  have "entries (snd (Table_Remove h key t)) + mset ?xs = entries t + mset (removed key ?xs)"
    unfolding eq using update_bucket_entries[OF inv i, of ?b'] by simp
  also have "\<dots> = entries t + filter_mset (\<lambda>e. fst e \<noteq> key) (mset ?xs)"
    by (simp add: rm(2))
  also have "\<dots> = filter_mset (\<lambda>e. fst e \<noteq> key) (entries t) + mset ?xs"
    using other_buckets_no_key[OF inv refl, of key] by simp
  finally show "entries (snd (Table_Remove h key t)) = filter_mset (\<lambda>e. fst e \<noteq> key) (entries t)"
    by simp
  show "global_depth (snd (Table_Remove h key t)) = global_depth t"
    and "num_buckets (snd (Table_Remove h key t)) = num_buckets t"
    and "bucket_size (snd (Table_Remove h key t)) = bucket_size t"
    and "dir (snd (Table_Remove h key t)) = dir t"
    unfolding eq by simp_all
qed

lemma Table_Insert_props:
  assumes inv: "table_inv h t" and ins: "Table_Insert h key v t = Some t'"
  shows "table_inv h t'"
    and "Table_Find h key' t' = (if key' = key then Some v else Table_Find h key' t)"
    and "bucket_size t' = bucket_size t"
proof -
  from ins obtain t1 where l: "split_loop h key t = Some t1" and t': "t' = store_entry h key v t1"
    by (auto simp: Table_Insert_def split: option.splits)
  from split_loop_inv[OF l inv] have inv1: "table_inv h t1"
    and f1: "\<And>key'. Table_Find h key' t1 = Table_Find h key' t"
    and nf: "\<not> IsFull (heap t1 ! (dir t1 ! IndexOf h t1 key))"
    and bs: "bucket_size t1 = bucket_size t"
    by auto
  note p = store_entry_props[OF inv1 nf, where v = v]
  show "table_inv h t'" using p(1) t' by simp
  show "Table_Find h key' t' = (if key' = key then Some v else Table_Find h key' t)"
    using p(2)[of key'] f1 t' by simp
  show "bucket_size t' = bucket_size t" using p(6) bs t' by simp
qed

lemma table_inv_init: "table_inv h (ExtendibleHashTable bs)"
  by (simp add: table_inv_def slot_ok_def ExtendibleHashTable_def Bucket_def bucket_at_def)

lemma table_step_props:
  assumes inv: "table_inv h t" and st: "table_step h op t = Some t'"
  shows "table_inv h t'"
    and "Table_Find h key' t' = spec_apply op (\<lambda>key. Table_Find h key t) key'"
    and "bucket_size t' = bucket_size t"
proof -
  show "table_inv h t'"
    using inv st Table_Insert_props(1) Table_Remove_props(1) by (cases op) auto
  show "Table_Find h key' t' = spec_apply op (\<lambda>key. Table_Find h key t) key'"
    using inv st Table_Insert_props(2)[of h t _ _ t' key'] Table_Remove_props(2)[of h t key']
    by (cases op) auto
  show "bucket_size t' = bucket_size t"
    using inv st Table_Insert_props(3) Table_Remove_props(6) by (cases op) auto
qed

lemma table_run_props:
  assumes "table_inv h t" "table_run h ops t = Some t'"
  shows "table_inv h t' \<and> bucket_size t' = bucket_size t \<and>
     (\<lambda>key. Table_Find h key t') = fold spec_apply ops (\<lambda>key. Table_Find h key t)"
  using assms
proof (induction ops arbitrary: t)
  case Nil
  then show ?case by simp
next
  case (Cons op ops)
  then obtain t1 where t1: "table_step h op t = Some t1" "table_run h ops t1 = Some t'"
    by (auto split: option.splits)
  note p = table_step_props[OF Cons.prems(1) t1(1)]
  have "(\<lambda>key. Table_Find h key t1) = spec_apply op (\<lambda>key. Table_Find h key t)"
    using p(2) by (simp add: fun_eq_iff)
  then show ?case using Cons.IH[OF p(1) t1(2)] p(3) by simp
qed

lemma Find_init: "Table_Find h key (ExtendibleHashTable bs) = None"
  by (simp add: Table_Find_def ExtendibleHashTable_def Bucket_def IndexOf_def Bucket_Find_def)

lemma split_bucket_dir_set:
  assumes inv: "table_inv h t" and i0: "i0 < length (dir t)" and o: "origin = dir t ! i0"
    and d: "depth_b (heap t ! origin) < global_depth t"
  shows "set (dir (split_bucket h origin t)) =
           (set (dir t) - {origin}) \<union> {length (heap t), length (heap t) + 1}"
proof -
  let ?t = "split_bucket h origin t"
  let ?ob = "heap t ! origin"
  let ?d = "depth_b ?ob"
  note len = table_invD(1)[OF inv]
  note ok = table_invD(2)[OF inv]
  have ob: "bucket_at t i0 = ?ob" using o by (simp add: bucket_at_def)
  note s0 = slot_okD[OF ok[OF i0]]
  have dis: "distinct (map fst (list_b ?ob))" and le: "length (list_b ?ob) \<le> bucket_size t"
    using s0(4,5) ob by simp_all
  note f = split_bucket_fields[OF dis le, where h = h]
  let ?lo = "take_bit ?d i0"
  let ?hi = "take_bit ?d i0 + 2 ^ ?d"
  have "(2::nat) ^ Suc ?d \<le> 2 ^ global_depth t"
    using d by (intro power_increasing) auto
  then have p2: "(2::nat) * 2 ^ ?d \<le> 2 ^ global_depth t" by simp
  have tl: "?lo < 2 ^ ?d" by simp
  have lo: "?lo < length (dir t)" and hi: "?hi < length (dir t)"
    unfolding len using p2 tl by linarith+
  have tlo: "take_bit ?d ?lo = take_bit ?d i0" by simp
  have thi: "take_bit ?d ?hi = take_bit ?d i0" by (simp add: take_bit_eq_mod)
  have blo: "\<not> bit ?lo ?d" by (simp add: bit_take_bit_iff)
  have "?hi div 2 ^ ?d = 1" using tl by (simp add: div_add_self2)
  then have bhi: "bit ?hi ?d" by (simp add: bit_iff_odd)
  have olo: "dir t ! ?lo = origin" using s0(7)[OF lo] tlo ob o by simp
  have ohi: "dir t ! ?hi = origin" using s0(7)[OF hi] thi ob o by simp
  have nlo: "dir ?t ! ?lo = length (heap t)" using f(6)[OF lo] olo blo by simp
  have nhi: "dir ?t ! ?hi = length (heap t) + 1" using f(6)[OF hi] ohi bhi by simp
  show ?thesis
  proof (intro equalityI subsetI)
    fix a assume "a \<in> set (dir ?t)"
    then obtain i where i: "i < length (dir t)" "dir ?t ! i = a"
      by (auto simp: in_set_conv_nth f(4))
    have m: "dir t ! i \<in> set (dir t)" using i(1) by simp
    show "a \<in> (set (dir t) - {origin}) \<union> {length (heap t), length (heap t) + 1}"
    proof (cases "dir t ! i = origin")
      case True
      then have "a = length (heap t) \<or> a = length (heap t) + 1"
        using f(6)[OF i(1)] i(2) by (simp split: if_splits)
      then show ?thesis by blast
    next
      case False
      then have "a = dir t ! i" using f(6)[OF i(1)] i(2) by simp
      then show ?thesis using m False by simp
    qed
  next
    fix a assume "a \<in> (set (dir t) - {origin}) \<union> {length (heap t), length (heap t) + 1}"
    then consider "a \<in> set (dir t)" "a \<noteq> origin" | "a = length (heap t)" | "a = length (heap t) + 1"
      by blast
    then show "a \<in> set (dir ?t)"
    proof cases
      case 1
      then obtain i where i: "i < length (dir t)" "dir t ! i = a" by (auto simp: in_set_conv_nth)
      then have "dir ?t ! i = a" using f(6)[OF i(1)] 1(2) by simp
      then show ?thesis using i(1) f(4) by (metis nth_mem)
    next
      case 2
      then show ?thesis using nlo lo f(4) by (metis nth_mem)
    next
      case 3
      then show ?thesis using nhi hi f(4) by (metis nth_mem)
    qed
  qed
qed

lemma split_bucket_entries:
  assumes inv: "table_inv h t" and i0: "i0 < length (dir t)" and o: "origin = dir t ! i0"
    and d: "depth_b (heap t ! origin) < global_depth t"
  shows "entries (split_bucket h origin t) = entries t"
proof -
  let ?t = "split_bucket h origin t"
  let ?ob = "heap t ! origin"
  let ?n = "length (heap t)"
  let ?D = "set (dir t) - {origin}"
  note ok = table_invD(2)[OF inv]
  have ob: "bucket_at t i0 = ?ob" using o by (simp add: bucket_at_def)
  note s0 = slot_okD[OF ok[OF i0]]
  have dis: "distinct (map fst (list_b ?ob))" and le: "length (list_b ?ob) \<le> bucket_size t"
    using s0(4,5) ob by simp_all
  note f = split_bucket_fields[OF dis le, where h = h]
  have lt: "a < ?n" if "a \<in> set (dir t)" for a
  proof -
    from that obtain i where "i < length (dir t)" "dir t ! i = a" by (auto simp: in_set_conv_nth)
    then show ?thesis using slot_okD(1)[OF ok, of i] by simp
  qed
  have fresh: "?n \<notin> ?D" "?n + 1 \<notin> ?D" using lt by fastforce+
  have oin: "origin \<in> set (dir t)" using o i0 by simp
  have same: "(\<Sum>a\<in>?D. mset (list_b (heap ?t ! a))) = (\<Sum>a\<in>?D. mset (list_b (heap t ! a)))"
    using lt by (intro sum.cong) (auto simp: f(5) nth_append)
  have part: "mset (list_b (heap ?t ! ?n)) + mset (list_b (heap ?t ! (?n + 1))) = mset (list_b ?ob)"
    by (simp add: f(5) nth_append split0_def split1_def)
  have "entries ?t = (\<Sum>a\<in>insert ?n (insert (?n + 1) ?D). mset (list_b (heap ?t ! a)))"
    unfolding entries_sum split_bucket_dir_set[OF assms] by (simp add: Un_commute)
  also have "\<dots> = mset (list_b (heap ?t ! ?n)) + (mset (list_b (heap ?t ! (?n + 1))) +
      (\<Sum>a\<in>?D. mset (list_b (heap ?t ! a))))"
    using fresh by simp
  also have "\<dots> = mset (list_b ?ob) + (\<Sum>a\<in>?D. mset (list_b (heap t ! a)))"
    using part same by (simp add: add.assoc[symmetric])
  also have "\<dots> = entries t"
    unfolding entries_sum using oin by (subst (2) sum.remove[of _ origin]) simp_all
  finally show ?thesis .
qed

lemma split_step_entries:
  assumes "table_inv h t"
  shows "entries (split_step h key t) = entries t"
proof -
  from split_step_ex[OF assms, of key]
  obtain t1 i0 where "split_step h key t = split_bucket h (dir t1 ! i0) t1"
    "table_inv h t1" "i0 < length (dir t1)" "depth_b (heap t1 ! (dir t1 ! i0)) < global_depth t1"
    "entries t1 = entries t"
    by blast
  then show ?thesis using split_bucket_entries[of h t1 i0 "dir t1 ! i0"] by simp
qed

lemma split_loop_entries:
  assumes "split_loop h key t = Some t'" "table_inv h t"
  shows "entries t' = entries t"
  using assms
proof (induction rule: split_loop_induct)
  case (stop t)
  then show ?case by simp
next
  case (step t t')
  from step.IH[OF split_step_inv[OF step.prems]] split_step_entries[OF step.prems]
  show ?case by simp
qed

text \<open>The bucket the key maps to after one split step: one level deeper, and holding the
  entries of the old target bucket whose hash has the same next bit as the key's.\<close>

lemma split_step_target:
  fixes h :: "'k \<Rightarrow> nat" and t :: "('k, 'v) table" and key :: 'k
  defines "b \<equiv> bucket_at t (IndexOf h t key)"
  defines "t' \<equiv> split_step h key t"
  assumes inv: "table_inv h t"
  shows "depth_b (bucket_at t' (IndexOf h t' key)) = Suc (depth_b b)"
    and "list_b (bucket_at t' (IndexOf h t' key)) =
           filter (\<lambda>it. bit (h (fst it)) (depth_b b) = bit (h key) (depth_b b)) (list_b b)"
proof -
  from split_step_ex[OF inv, of key]
  obtain t1 i0 where e: "split_step h key t = split_bucket h (dir t1 ! i0) t1"
    and inv1: "table_inv h t1" and i0: "i0 < length (dir t1)"
    and d: "depth_b (heap t1 ! (dir t1 ! i0)) < global_depth t1"
    and hp: "heap t1 = heap t" and o: "dir t1 ! i0 = dir t ! IndexOf h t key"
    and i0e: "i0 = IndexOf h t key"
    by blast
  let ?o = "dir t1 ! i0"
  let ?ob = "heap t1 ! ?o"
  let ?d = "depth_b ?ob"
  have bo: "b = ?ob" by (simp add: b_def bucket_at_def hp o)
  have ob: "bucket_at t1 i0 = ?ob" by (simp add: bucket_at_def)
  note s0 = slot_okD[OF table_invD(2)[OF inv1 i0]]
  have dis: "distinct (map fst (list_b ?ob))" and le: "length (list_b ?ob) \<le> bucket_size t1"
    using s0(4,5) ob by simp_all
  note f = split_bucket_fields[OF dis le, where h = h]
  let ?i = "take_bit (global_depth t1) (h key)"
  have te: "t' = split_bucket h ?o t1" by (simp add: t'_def e)
  have ie: "IndexOf h (split_bucket h ?o t1) key = ?i" by (simp add: IndexOf_take_bit f(1))
  have i: "?i < length (dir t1)" using table_invD(1)[OF inv1] by simp
  have dg: "depth_b b \<le> global_depth t"
    using slot_okD(2)[OF IndexOf_slot_ok(1)[OF inv, of key]] by (simp add: b_def)
  have "take_bit ?d ?i = take_bit ?d (h key)" using d by (simp add: take_bit_inner)
  moreover have "take_bit ?d i0 = take_bit ?d (h key)"
    using dg bo by (simp add: i0e IndexOf_take_bit take_bit_inner)
  ultimately have "dir t1 ! ?i = ?o" using s0(7)[OF i] ob by simp
  moreover have "bit ?i ?d = bit (h key) ?d" using d by (rule bit_take_bit_less)
  ultimately have B: "bucket_at t' (IndexOf h t' key) =
      (if bit (h key) ?d then split1 h (bucket_size t1) ?ob else split0 h (bucket_size t1) ?ob)"
    unfolding te ie
    using split_bucket_at[OF dis le i slot_okD(1)[OF table_invD(2)[OF inv1 i]], where h = h]
    by simp
  show "depth_b (bucket_at t' (IndexOf h t' key)) = Suc (depth_b b)"
    unfolding B bo by (simp add: split0_def split1_def)
  show "list_b (bucket_at t' (IndexOf h t' key)) =
           filter (\<lambda>it. bit (h (fst it)) (depth_b b) = bit (h key) (depth_b b)) (list_b b)"
    unfolding B bo by (simp add: split0_def split1_def)
qed

text \<open>The loop ends when it starts in a state that satisfies the invariant and in which the
  target bucket, if full, holds a key whose hash differs from the new key's below bit \<open>B\<close>.\<close>

lemma split_loop_terminates_aux:
  assumes "table_inv h t"
    and "IsFull (bucket_at t (IndexOf h t key)) \<longrightarrow>
           (\<exists>it\<in>set (list_b (bucket_at t (IndexOf h t key))).
              take_bit B (h (fst it)) \<noteq> take_bit B (h key))"
    and "n = B - depth_b (bucket_at t (IndexOf h t key))"
  shows "\<exists>t'. split_loop h key t = Some t'"
  using assms
proof (induction n arbitrary: t rule: less_induct)
  case (less n)
  let ?b = "bucket_at t (IndexOf h t key)"
  show ?case
  proof (cases "IsFull ?b")
    case False
    then show ?thesis by (subst split_loop.simps) (simp add: bucket_at_def)
  next
    case True
    let ?t = "split_step h key t"
    let ?b' = "bucket_at ?t (IndexOf h ?t key)"
    note s = slot_okD[OF IndexOf_slot_ok(1)[OF less.prems(1), of key]]
    note tg = split_step_target[OF less.prems(1), of key]
    from True less.prems(2) obtain it where it: "it \<in> set (list_b ?b)"
      "take_bit B (h (fst it)) \<noteq> take_bit B (h key)" by blast
    have "take_bit (depth_b ?b) (h (fst it)) = take_bit (depth_b ?b) (h key)"
      using s(6)[OF it(1)] s(2) by (simp add: IndexOf_take_bit take_bit_inner)
    then have dB: "depth_b ?b < B"
      using it(2) take_bit_eq_mono[of B "depth_b ?b" "h (fst it)" "h key"] by force
    have inv': "table_inv h ?t" using less.prems(1) by (rule split_step_inv)
    have bs': "bucket_size ?t = bucket_size t" using less.prems(1) by (rule split_step_bucket_size)
    have keep: "\<exists>it\<in>set (list_b ?b'). take_bit B (h (fst it)) \<noteq> take_bit B (h key)"
      if full: "IsFull ?b'"
    proof -
      have "size_b ?b' = bucket_size t"
        using slot_okD(3)[OF IndexOf_slot_ok(1)[OF inv', of key]] bs' by simp
      then have "length (list_b ?b') = length (list_b ?b)"
        using full True s(3) by (simp add: IsFull_def)
      then have "list_b ?b' = list_b ?b"
        unfolding tg(2) by (metis filter_id_conv length_filter_less less_irrefl)
      then show ?thesis using it by auto
    qed
    have "B - depth_b ?b' < n" using tg(1) dB less.prems(3) by simp
    from less.IH[OF this inv' _ refl] keep
    obtain t' where "split_loop h key ?t = Some t'" by blast
    then show ?thesis using True by (subst split_loop.simps) (simp add: bucket_at_def)
  qed
qed

lemma split_loop_terminates:
  assumes "table_inv h t"
    and "IsFull (bucket_at t (IndexOf h t key)) \<Longrightarrow>
           \<exists>it\<in>set (list_b (bucket_at t (IndexOf h t key))). h (fst it) \<noteq> h key"
  shows "\<exists>t'. split_loop h key t = Some t'"
proof (cases "IsFull (bucket_at t (IndexOf h t key))")
  case False
  then show ?thesis by (subst split_loop.simps) (simp add: bucket_at_def)
next
  case True
  from assms(2)[OF True] obtain it where it: "it \<in> set (list_b (bucket_at t (IndexOf h t key)))"
    "h (fst it) \<noteq> h key" by blast
  let ?B = "h (fst it) + h key"
  have "h (fst it) < 2 ^ ?B" "h key < 2 ^ ?B"
    by (metis le_add1 less_exp order_le_less_trans, metis le_add2 less_exp order_le_less_trans)
  then have "take_bit ?B (h (fst it)) \<noteq> take_bit ?B (h key)"
    using it(2) by (simp add: take_bit_nat_eq_self)
  then show ?thesis
    using split_loop_terminates_aux[OF assms(1) _ refl, of key ?B] it(1) by blast
qed

text \<open>The loop does not end when it starts in a state of some set \<open>Q\<close> in which the
  target bucket is full and which a split step does not leave.\<close>

lemma split_loop_diverges:
  assumes "Q t"
    and "\<And>t. Q t \<Longrightarrow> IsFull (heap t ! (dir t ! IndexOf h t key)) \<and> Q (split_step h key t)"
  shows "split_loop h key t = None"
proof (rule ccontr)
  assume "split_loop h key t \<noteq> None"
  then obtain t' where "split_loop h key t = Some t'" by blast
  then have "\<not> Q t"
  proof (induction rule: split_loop_induct)
    case (stop t)
    then show ?case using assms(2) by blast
  next
    case (step t t')
    then show ?case using assms(2) by blast
  qed
  then show False using assms(1) by simp
qed

lemma insert_present_diverges:
  assumes inv: "table_inv h t" and bs: "bucket_size t = 1" and f: "Table_Find h key t \<noteq> None"
  shows "Table_Insert h key v t = None"
proof -
  let ?Q = "\<lambda>t. table_inv h t \<and> bucket_size t = 1 \<and> Table_Find h key t \<noteq> None"
  have "split_loop h key t = None"
  proof (rule split_loop_diverges[where Q = ?Q])
    show "?Q t" using assms by simp
    fix t assume q: "?Q t"
    note s = slot_okD[OF IndexOf_slot_ok(1)[of h t key]]
    have "list_b (bucket_at t (IndexOf h t key)) \<noteq> []"
      using q by (auto simp: Table_Find_bucket_at)
    then have "length (list_b (bucket_at t (IndexOf h t key))) = 1"
      using s(4) q by (cases "list_b (bucket_at t (IndexOf h t key))") auto
    then have "IsFull (heap t ! (dir t ! IndexOf h t key))"
      using s(3) q by (simp add: IsFull_def bucket_at_def)
    then show "IsFull (heap t ! (dir t ! IndexOf h t key)) \<and> ?Q (split_step h key t)"
      using q split_step_inv[of h t key] split_step_bucket_size[of h t key]
        split_step_Find[of h t key key] by simp
  qed
  then show ?thesis by (simp add: Table_Insert_def)
qed

lemmas table_eval = Table_Insert_def store_entry_def split_step_def split_bucket_def grow_def
  rewire_def redistribute_def Bucket_Insert_def IsFull_def IndexOf_def ExtendibleHashTable_def
  Bucket_def Let_def idh_def enumerate_eq_zip split_loop.simps Table_Remove_def Bucket_Remove_def
  Table_Find_def Bucket_Find_def

lemma example_table_run:
  "table_run idh example_table_ops (ExtendibleHashTable 2) = Some example_table"
  by code_simp

lemma table_run_reachable:
  assumes "table_run h ops (ExtendibleHashTable bs) = Some t"
  shows "table_inv h t" and "bucket_size t = bs"
    and "Table_Find h key t = spec_contents ops key"
proof -
  note p = table_run_props[OF table_inv_init assms]
  show "table_inv h t" using p by simp
  show "bucket_size t = bs" using p by (simp add: ExtendibleHashTable_def)
  have "(\<lambda>key. Table_Find h key (ExtendibleHashTable bs :: ('a, 'b) table)) = Map.empty"
    by (simp add: Find_init)
  then have "(\<lambda>key. Table_Find h key t) = spec_contents ops"
    using p by (simp add: spec_contents_def)
  then show "Table_Find h key t = spec_contents ops key" by (simp add: fun_eq_iff)
qed

lemma Table_Insert_total:
  assumes inv: "table_inv h t" and inj: "inj h" and bs: "2 \<le> bucket_size t"
  shows "\<exists>t'. Table_Insert h key v t = Some t'"
proof -
  let ?b = "bucket_at t (IndexOf h t key)"
  note s = slot_okD[OF IndexOf_slot_ok(1)[OF inv, of key]]
  have "\<exists>it\<in>set (list_b ?b). h (fst it) \<noteq> h key" if "IsFull ?b"
  proof -
    have "2 \<le> length (list_b ?b)" using that s(3) bs by (simp add: IsFull_def)
    then have "2 \<le> card (fst ` set (list_b ?b))"
      using s(5) by (metis distinct_card length_map set_map)
    then have "\<not> fst ` set (list_b ?b) \<subseteq> {key}"
      by (metis card_mono card.empty card_insert_if empty_iff finite.emptyI finite.insertI
          le_trans not_less_eq_eq numeral_2_eq_2 order_refl)
    then obtain it where "it \<in> set (list_b ?b)" "fst it \<noteq> key" by auto
    then show ?thesis using inj by (auto dest: injD)
  qed
  from split_loop_terminates[OF inv this] show ?thesis
    by (auto simp: Table_Insert_def)
qed

lemma table_run_total:
  assumes "table_inv h t" "inj h" "2 \<le> bucket_size t"
  shows "table_run h ops t \<noteq> None"
  using assms
proof (induction ops arbitrary: t)
  case Nil
  then show ?case by simp
next
  case (Cons op ops)
  have "\<exists>t1. table_step h op t = Some t1"
    using Table_Insert_total[OF Cons.prems] by (cases op) auto
  then obtain t1 where t1: "table_step h op t = Some t1" by blast
  note p = table_step_props[OF Cons.prems(1) t1]
  show ?case using Cons.IH[OF p(1) Cons.prems(2)] p(3) Cons.prems(3) t1 by simp
qed

lemma Table_Insert_total_fresh:
  assumes inv: "table_inv h t" and inj: "inj h" and bs: "1 \<le> bucket_size t"
    and fresh: "Table_Find h key t = None"
  shows "\<exists>t'. Table_Insert h key v t = Some t'"
proof -
  let ?b = "bucket_at t (IndexOf h t key)"
  note s = slot_okD[OF IndexOf_slot_ok(1)[OF inv, of key]]
  have nk: "key \<notin> fst ` set (list_b ?b)"
    using fresh by (simp add: Table_Find_bucket_at map_of_eq_None_iff)
  have "\<exists>it\<in>set (list_b ?b). h (fst it) \<noteq> h key" if "IsFull ?b"
  proof -
    have "list_b ?b \<noteq> []" using that s(3) bs by (auto simp: IsFull_def)
    then obtain it where it: "it \<in> set (list_b ?b)" by (cases "list_b ?b") auto
    then have "fst it \<noteq> key" using nk by auto
    then show ?thesis using inj it by (auto dest: injD)
  qed
  from split_loop_terminates[OF inv this] show ?thesis
    by (auto simp: Table_Insert_def)
qed

lemma table_run_total_fresh:
  assumes "table_inv h t" "inj h" "1 \<le> bucket_size t"
    and "no_reinsert ops (\<lambda>key. Table_Find h key t)"
  shows "table_run h ops t \<noteq> None"
  using assms
proof (induction ops arbitrary: t)
  case Nil
  then show ?case by simp
next
  case (Cons op ops)
  have "\<exists>t1. table_step h op t = Some t1"
  proof (cases op)
    case (OpInsert key v)
    then have "Table_Find h key t = None" using Cons.prems(4) by simp
    from Table_Insert_total_fresh[OF Cons.prems(1,2,3) this] OpInsert show ?thesis by simp
  next
    case (OpRemoveKey key)
    then show ?thesis by simp
  qed
  then obtain t1 where t1: "table_step h op t = Some t1" by blast
  note p = table_step_props[OF Cons.prems(1) t1]
  have c: "(\<lambda>key. Table_Find h key t1) = spec_apply op (\<lambda>key. Table_Find h key t)"
    using p(2) by (simp add: fun_eq_iff)
  have "no_reinsert ops (\<lambda>key. Table_Find h key t1)"
    unfolding c using Cons.prems(4) by (cases op) simp_all
  from Cons.IH[OF p(1) Cons.prems(2) _ this] p(3) Cons.prems(3) t1 show ?case by simp
qed

text \<open>
  Run any sequence of inserts and removes on a fresh table. If the run ends in a table
  \<open>t\<close>, then \<open>Table_Find\<close> on \<open>t\<close> returns, for every key, what the spec says: the
  value of the most recent insert of the key that no remove of the key follows, and nothing
  for a key never inserted or removed since (\<open>spec_contents\<close>). The splits that the
  inserts of the run performed do not matter (\<open>split_step_Find\<close>). The run does end
  whenever the hash is injective and either the buckets hold at least two entries, or they
  hold one and no operation inserts a key that the table holds at that moment.
\<close>

lemma Find_after_run:
  "(table_run h ops (ExtendibleHashTable bs) = Some t \<longrightarrow>
      Table_Find h key t = spec_contents ops key) \<and>
   (inj h \<and> (2 \<le> bs \<or> 1 \<le> bs \<and> no_reinsert ops Map.empty) \<longrightarrow>
      table_run h ops (ExtendibleHashTable bs) \<noteq> None)"
proof (intro conjI impI)
  assume "table_run h ops (ExtendibleHashTable bs) = Some t"
  then show "Table_Find h key t = spec_contents ops key" by (rule table_run_reachable(3))
next
  let ?t = "ExtendibleHashTable bs :: ('a, 'b) table"
  assume a: "inj h \<and> (2 \<le> bs \<or> 1 \<le> bs \<and> no_reinsert ops Map.empty)"
  have e: "(\<lambda>key. Table_Find h key ?t) = Map.empty" by (simp add: Find_init)
  have b: "bucket_size ?t = bs" by (simp add: ExtendibleHashTable_def)
  from a consider "inj h" "2 \<le> bs" | "inj h" "1 \<le> bs" "no_reinsert ops Map.empty" by blast
  then show "table_run h ops ?t \<noteq> None"
  proof cases
    case 1
    then show ?thesis using table_run_total[OF table_inv_init, of h bs ops] b by simp
  next
    case 2
    then show ?thesis using table_run_total_fresh[OF table_inv_init, of h bs ops] b e by simp
  qed
qed

text \<open>
  The lemma at \<open>example_table_ops\<close> with the identity hash and buckets of two entries:
  the run splits twice and ends in \<open>example_table\<close>, where key \<open>1\<close> has its second
  value, key \<open>2\<close> is removed, key \<open>3\<close> is kept and key \<open>4\<close> was never inserted.
\<close>

lemma Find_after_run_example:
  "inj idh \<and> (2::nat) \<le> 2 \<and>
   table_run idh example_table_ops (ExtendibleHashTable 2) = Some example_table \<and>
   Table_Find idh 1 example_table = Some 40 \<and>
   Table_Find idh 2 example_table = None \<and>
   Table_Find idh 3 example_table = Some 30 \<and>
   Table_Find idh 4 example_table = None"
proof -
  have i: "inj idh" by (simp add: inj_def idh_def)
  have s: "spec_contents example_table_ops 1 = Some 40" "spec_contents example_table_ops 2 = None"
    "spec_contents example_table_ops 3 = Some 30" "spec_contents example_table_ops 4 = None"
    by (simp_all add: spec_contents_def example_table_ops_def)
  show ?thesis
    using i s example_table_run
      Find_after_run[of idh example_table_ops 2 example_table 1]
      Find_after_run[of idh example_table_ops 2 example_table 2]
      Find_after_run[of idh example_table_ops 2 example_table 3]
      Find_after_run[of idh example_table_ops 2 example_table 4]
    by simp
qed

lemma single_table_first: "Table_Insert idh 1 10 (ExtendibleHashTable 1) = Some single_table"
proof -
  have "table_run idh [OpInsert 1 10] (ExtendibleHashTable 1) = Some single_table"
    by (simp add: single_table_def table_eval)
  then show ?thesis by (simp split: option.splits)
qed

lemma single_table_Find: "Table_Find idh 1 single_table = Some 10"
  by (simp add: single_table_def table_eval)

lemma single_table_reinsert: "Table_Insert idh 1 20 single_table = None"
proof -
  have r: "table_run idh [OpInsert 1 10] (ExtendibleHashTable 1) = Some single_table"
    using single_table_first by simp
  show ?thesis
    using table_run_reachable(1,2)[OF r] single_table_Find
    by (intro insert_present_diverges) simp_all
qed

text \<open>
  Claim C1. Not every sequence of operations runs to its end, so \<open>find\<close> does not
  return the last inserted value after every sequence. With buckets of one entry, insert
  \<open>(1, 10)\<close> and then \<open>(1, 20)\<close>: the spec says \<open>find\<close> of key \<open>1\<close> returns
  \<open>20\<close>, but the second insert does not return, since its split loop runs before it
  looks for the key (\<open>insert_present_diverges\<close>); the table it started from still maps
  key \<open>1\<close> to \<open>10\<close>. After every sequence that does run to its end, \<open>find\<close>
  returns what the claim says (\<open>Find_after_run\<close>).
\<close>

theorem Find_after_reinsert:
  "table_run idh reinsert_ops (ExtendibleHashTable 1) = None \<and>
   spec_contents reinsert_ops 1 = Some 20 \<and>
   table_run idh (butlast reinsert_ops) (ExtendibleHashTable 1) = Some single_table \<and>
   Table_Find idh 1 single_table = Some 10"
  using single_table_first single_table_Find single_table_reinsert
  by (simp add: spec_contents_def reinsert_ops_def)

lemma Insert_not_full:
  assumes "\<not> IsFull (heap t ! (dir t ! IndexOf h t key))"
  shows "Table_Insert h key v t = Some (store_entry h key v t)"
proof -
  have "split_loop h key t = Some t" using assms by (subst split_loop.simps) simp
  then show ?thesis by (simp add: Table_Insert_def)
qed

lemma Insert_present_not_full:
  assumes inv: "table_inv h t" and nf: "\<not> IsFull (heap t ! (dir t ! IndexOf h t key))"
  shows "\<exists>t'. Table_Insert h key v t = Some t' \<and> Table_Find h key t' = Some v \<and>
     entries t' = filter_mset (\<lambda>e. fst e \<noteq> key) (entries t) + {#(key, v)#} \<and>
     num_buckets t' = num_buckets t \<and> global_depth t' = global_depth t \<and> dir t' = dir t"
  using store_entry_props[OF inv nf, where v = v] Insert_not_full[OF nf, of v]
  by simp

text \<open>
  Claim C6. \<open>Insert\<close> runs its split loop before it looks for the key. With buckets of
  two entries and the keys \<open>1\<close> and \<open>2\<close> in the only bucket, the bucket of key \<open>1\<close>
  is full; inserting \<open>(1, 30)\<close> then doubles the directory and splits the bucket before
  it overwrites the value: \<open>global_depth\<close> goes from \<open>0\<close> to \<open>1\<close> and
  \<open>num_buckets\<close> from \<open>1\<close> to \<open>2\<close>. When the bucket of the key is not full, the
  insert does what the claim says (\<open>Insert_present_not_full\<close>).
\<close>

theorem Insert_present_full_splits:
  "table_run idh [OpInsert 1 10, OpInsert 2 20] (ExtendibleHashTable 2) = Some full_table \<and>
   Table_Find idh 1 full_table = Some 10 \<and>
   IsFull (heap full_table ! (dir full_table ! IndexOf idh full_table 1)) \<and>
   Table_Insert idh 1 30 full_table = Some full_table_after \<and>
   global_depth full_table = 0 \<and> global_depth full_table_after = 1 \<and>
   num_buckets full_table = 1 \<and> num_buckets full_table_after = 2"
  by code_simp

text \<open>
  Claim C8. With buckets of one entry, inserting a key that is already in the table does
  not return: the bucket of the key is full, and each split step moves the key's entry to
  the new bucket the key maps to, which is full again (\<open>insert_present_diverges\<close>). Each
  step does deepen the bucket of the key by one (\<open>split_step_target\<close>), but nothing
  bounds the depth. When the full bucket holds a key whose hash differs from the new
  key's, the loop ends (\<open>split_loop_terminates\<close>).
\<close>

theorem Insert_present_never_returns:
  "Table_Insert idh 1 10 (ExtendibleHashTable 1) = Some single_table \<and>
   Table_Find idh 1 single_table = Some 10 \<and>
   Table_Insert idh 1 20 single_table = None"
  using single_table_first single_table_Find single_table_reinsert by simp

lemma key_once:
  assumes inv: "table_inv h t" and i: "i < length (dir t)" and j: "j < length (dir t)"
    and e: "e \<in> set (list_b (bucket_at t i))" and e': "e' \<in> set (list_b (bucket_at t j))"
    and k: "fst e = fst e'"
  shows "dir t ! i = dir t ! j" and "e = e'"
proof -
  show a: "dir t ! i = dir t ! j"
    using key_bucket[OF inv i e] key_bucket[OF inv j e'] k by simp
  then have "bucket_at t i = bucket_at t j" by (simp add: bucket_at_def)
  then show "e = e'"
    using slot_okD(5)[OF table_invD(2)[OF inv i]] e e' k
    by (metis eq_key_imp_eq_value prod.collapse)
qed

text \<open>
  Claim C7. A fresh table satisfies the invariant, and an insert that returns and a remove
  keep it. In a table that satisfies the invariant, a key is in at most one bucket, and
  there in one entry only. Doubling the directory, a split step and the whole
  split loop keep the multiset of the entries reachable through the directory, and the
  invariant. An insert that returns removes the entries of its key from the multiset and
  adds the new entry; a remove removes the entries of its key.
\<close>

theorem entries_kept:
  fixes h :: "'k \<Rightarrow> nat" and t :: "('k, 'v) table"
  assumes "table_inv h t"
  shows "table_inv h (ExtendibleHashTable bs :: ('k, 'v) table) \<and>
         (\<forall>i<length (dir t). \<forall>j<length (dir t). \<forall>e e'.
            e \<in> set (list_b (bucket_at t i)) \<and> e' \<in> set (list_b (bucket_at t j)) \<and> fst e = fst e'
              \<longrightarrow> dir t ! i = dir t ! j \<and> e = e') \<and>
         entries (grow t) = entries t \<and> table_inv h (grow t) \<and>
         entries (split_step h key t) = entries t \<and> table_inv h (split_step h key t) \<and>
         (\<forall>t'. split_loop h key t = Some t' \<longrightarrow> entries t' = entries t \<and> table_inv h t') \<and>
         (\<forall>t'. Table_Insert h key v t = Some t' \<longrightarrow>
            entries t' = filter_mset (\<lambda>e. fst e \<noteq> key) (entries t) + {#(key, v)#} \<and>
            table_inv h t') \<and>
         entries (snd (Table_Remove h key t)) = filter_mset (\<lambda>e. fst e \<noteq> key) (entries t) \<and>
         table_inv h (snd (Table_Remove h key t))"
proof (intro conjI allI impI)
  show "table_inv h (ExtendibleHashTable bs :: ('k, 'v) table)" by (rule table_inv_init)
next
  fix i j e e'
  assume "i < length (dir t)" "j < length (dir t)"
    "e \<in> set (list_b (bucket_at t i)) \<and> e' \<in> set (list_b (bucket_at t j)) \<and> fst e = fst e'"
  then show "dir t ! i = dir t ! j" "e = e'"
    using key_once[OF assms, of i j e e'] by simp_all
next
  show "entries (grow t) = entries t" by (simp add: entries_sum grow_def)
  show "table_inv h (grow t)" using assms by (rule grow_inv)
  show "entries (split_step h key t) = entries t" using assms by (rule split_step_entries)
  show "table_inv h (split_step h key t)" using assms by (rule split_step_inv)
next
  fix t' assume l: "split_loop h key t = Some t'"
  show "entries t' = entries t" using l assms by (rule split_loop_entries)
  show "table_inv h t'" using split_loop_inv[OF l assms] by simp
next
  fix t' assume ins: "Table_Insert h key v t = Some t'"
  then obtain t1 where l: "split_loop h key t = Some t1" and t': "t' = store_entry h key v t1"
    by (auto simp: Table_Insert_def split: option.splits)
  from split_loop_inv[OF l assms] have inv1: "table_inv h t1"
    and nf: "\<not> IsFull (heap t1 ! (dir t1 ! IndexOf h t1 key))" by auto
  show "entries t' = filter_mset (\<lambda>e. fst e \<noteq> key) (entries t) + {#(key, v)#}"
    using store_entry_props(3)[OF inv1 nf, where v = v] split_loop_entries[OF l assms] t' by simp
  show "table_inv h t'" using assms ins by (rule Table_Insert_props(1))
next
  show "entries (snd (Table_Remove h key t)) = filter_mset (\<lambda>e. fst e \<noteq> key) (entries t)"
    using assms by (rule Table_Remove_props(3))
  show "table_inv h (snd (Table_Remove h key t))" using assms by (rule Table_Remove_props(1))
qed

text \<open>
  The theorem at \<open>example_table\<close>, which holds the entries \<open>(1, 40)\<close> and
  \<open>(3, 30)\<close>: a split step for key \<open>3\<close> keeps both, removing key \<open>3\<close> leaves
  \<open>(1, 40)\<close>.
\<close>

theorem entries_kept_witness:
  "table_inv idh example_table \<and>
   entries example_table = {#(1, 40), (3, 30)#} \<and>
   entries (split_step idh 3 example_table) = {#(1, 40), (3, 30)#} \<and>
   table_inv idh (split_step idh 3 example_table) \<and>
   entries (snd (Table_Remove idh 3 example_table)) = {#(1, 40)#}"
proof -
  have inv: "table_inv idh example_table"
    using example_table_run by (rule table_run_reachable(1))
  have e: "entries example_table = {#(1, 40), (3, 30)#}"
    by (simp add: entries_def example_table_def)
  show ?thesis
    using inv e entries_kept[OF inv, where key = 3 and v = 0 and bs = 2] by simp
qed

end
